theory Spec2Isabelle
  imports Main
begin
section \<open>The otter scheduler (\<^verbatim>\<open>otter/scheduler.py\<close>)\<close>

text \<open>
  A shallow embedding of \<^verbatim>\<open>otter/scheduler.py\<close>.  The module is written against Twisted:
  every call to the store, to a scaling group and to the partitioner returns a Deferred,
  and the module chains callbacks and errbacks on it.  Here a Deferred is the value it
  fires with: \<open>Inl\<close> a failure or \<open>Inr\<close> a result.  The collaborators (store, groups,
  partitioner, clock, croniter) are outside the module; what they answer is held in the
  \<open>world\<close>, and every call to them is appended to its \<open>trace\<close>.
\<close>

subsection \<open>Data\<close>

type_synonym time = int
type_synonym bucket = nat

text \<open>The exceptions a Deferred of this module can fail with.\<close>

datatype failure =
    CannotExecutePolicyError
  | NoSuchScalingGroupError
  | NoSuchPolicyError
  | AttributeError
  | OtherError string

type_synonym 'a deferred = "failure + 'a"

text \<open>
  An event is a dict with the keys \<^verbatim>\<open>tenantId\<close>, \<^verbatim>\<open>groupId\<close>, \<^verbatim>\<open>policyId\<close>,
  \<^verbatim>\<open>trigger\<close>, \<^verbatim>\<open>cron\<close> and \<^verbatim>\<open>version\<close>; \<^verbatim>\<open>cron\<close> is \<^verbatim>\<open>None\<close> or a string.
\<close>

record event =
  tenantId :: string
  groupId :: string
  policyId :: string
  trigger :: time
  cron :: "string option"
  version :: string

text \<open>The calls the module makes on its collaborators, as they are observed.\<close>

datatype action =
    Log_msg string
  | Log_err "failure option" string
  | Fetch_and_delete bucket time int
  | Get_scaling_group string string
  | Modify_state string string string string
  | Add_cron_events "event list"
  | Set_partitioner string "bucket set" nat
  | Release_set
  | Finish
  | Timer_start
  | Timer_stop

text \<open>
  The world outside the module.  \<open>fetch_results\<close>, \<open>modify_results\<close> and
  \<open>insert_results\<close> are what the successive calls of \<^verbatim>\<open>store.fetch_and_delete\<close>,
  \<^verbatim>\<open>group.modify_state\<close> and \<^verbatim>\<open>store.add_cron_events\<close> fire with, in call order; once
  a list is used up the store has nothing more to say: a fetch finds no event, a
  modification and an insert succeed.  \<open>clock\<close> gives the successive readings of
  \<^verbatim>\<open>datetime.utcnow()\<close> and \<open>croniter\<close> is the library call
  \<^verbatim>\<open>croniter(cron, start_time=t).get_next(ret_type=datetime)\<close>, which raises on a cron
  entry it cannot read and on one that never occurs: \<open>Inl\<close> is the exception raised.
\<close>

record world =
  trace :: "action list"
  fetch_results :: "event list deferred list"
  modify_results :: "unit deferred list"
  insert_results :: "unit deferred list"
  clock :: "nat \<Rightarrow> time"
  ticks :: nat
  croniter :: "string \<Rightarrow> time \<Rightarrow> failure + time"

definition emit :: "action \<Rightarrow> world \<Rightarrow> world" where
  "emit a w = w\<lparr>trace := trace w @ [a]\<rparr>"

definition log_msg :: "string \<Rightarrow> world \<Rightarrow> world" where
  "log_msg m w = emit (Log_msg m) w"

text \<open>\<^verbatim>\<open>log.err\<close> returns \<^verbatim>\<open>None\<close>: as an errback it turns the failure into a success.\<close>

definition log_err :: "failure option \<Rightarrow> string \<Rightarrow> world \<Rightarrow> unit deferred \<times> world" where
  "log_err f m w = (Inr (), emit (Log_err f m) w)"

definition utcnow :: "world \<Rightarrow> time \<times> world" where
  "utcnow w = (clock w (ticks w), w\<lparr>ticks := Suc (ticks w)\<rparr>)"

definition fetch_and_delete :: "bucket \<Rightarrow> time \<Rightarrow> int \<Rightarrow> world \<Rightarrow> event list deferred \<times> world" where
  "fetch_and_delete b now batchsize w =
     (let w1 = emit (Fetch_and_delete b now batchsize) w
      in case fetch_results w1 of
           [] \<Rightarrow> (Inr [], w1)
         | r # rs \<Rightarrow> (r, w1\<lparr>fetch_results := rs\<rparr>))"

definition store_add_cron_events :: "event list \<Rightarrow> world \<Rightarrow> unit deferred \<times> world" where
  "store_add_cron_events evs w =
     (let w1 = emit (Add_cron_events evs) w
      in case insert_results w1 of
           [] \<Rightarrow> (Inr (), w1)
         | r # rs \<Rightarrow> (r, w1\<lparr>insert_results := rs\<rparr>))"

text \<open>
  \<^verbatim>\<open>store.get_scaling_group(log, tenant_id, group_id)\<close> returns a group handle at once;
  \<^verbatim>\<open>group.modify_state(partial(maybe_execute_scaling_policy, ..., policy_id=, version=))\<close>
  on that handle returns a Deferred.
\<close>

definition get_scaling_group :: "string \<Rightarrow> string \<Rightarrow> world \<Rightarrow> world" where
  "get_scaling_group tenant_id group_id w = emit (Get_scaling_group tenant_id group_id) w"

definition modify_state ::
  "string \<Rightarrow> string \<Rightarrow> string \<Rightarrow> string \<Rightarrow> world \<Rightarrow> unit deferred \<times> world" where
  "modify_state tenant_id group_id policy_id vers w =
     (let w1 = emit (Modify_state tenant_id group_id policy_id vers) w
      in case modify_results w1 of
           [] \<Rightarrow> (Inr (), w1)
         | r # rs \<Rightarrow> (r, w1\<lparr>modify_results := rs\<rparr>))"

subsection \<open>Deferreds\<close>

text \<open>
  \<^verbatim>\<open>d.addCallback(f)\<close> runs \<open>f\<close> on a result and passes a failure on;
  \<^verbatim>\<open>d.addErrback(f)\<close> runs \<open>f\<close> on a failure and passes a result on.  \<open>'s\<close> is the
  state the handler works on.
\<close>

definition addCallback ::
  "('a \<Rightarrow> 's \<Rightarrow> 'b deferred \<times> 's) \<Rightarrow> 'a deferred \<times> 's \<Rightarrow> 'b deferred \<times> 's" where
  "addCallback cb ds = (case ds of (Inr v, s) \<Rightarrow> cb v s | (Inl f, s) \<Rightarrow> (Inl f, s))"

definition addErrback ::
  "(failure \<Rightarrow> 's \<Rightarrow> 'a deferred \<times> 's) \<Rightarrow> 'a deferred \<times> 's \<Rightarrow> 'a deferred \<times> 's" where
  "addErrback eb ds = (case ds of (Inl f, s) \<Rightarrow> eb f s | (Inr v, s) \<Rightarrow> (Inr v, s))"

text \<open>
  \<^verbatim>\<open>defer.gatherResults(ds, consumeErrors=True)\<close> on Deferreds that have all fired: the
  list of their results, or the first failure.
\<close>

fun gatherResults :: "'a deferred list \<Rightarrow> 'a list deferred" where
  "gatherResults [] = Inr []"
| "gatherResults (Inl f # ds) = Inl f"
| "gatherResults (Inr v # ds) = (case gatherResults ds of Inl f \<Rightarrow> Inl f | Inr vs \<Rightarrow> Inr (v # vs))"

text \<open>
  Modelled from the spec: \<^verbatim>\<open>otter.util.deferredutils.ignore_and_log\<close> is not among the
  sources.  The spec has \<^verbatim>\<open>CannotExecutePolicyError\<close> "swallowed as expected behavior":
  "log at info level, continue".  So a failure of the given type is logged with the given
  message and becomes a success; any other failure is passed on.
\<close>

definition ignore_and_log :: "failure \<Rightarrow> failure \<Rightarrow> string \<Rightarrow> world \<Rightarrow> unit deferred \<times> world" where
  "ignore_and_log f exception_type m w =
     (if f = exception_type then (Inr (), log_msg m w) else (Inl f, w))"

subsection \<open>Executing one event\<close>

text \<open>
  \<^verbatim>\<open>collect_deleted_policy\<close>: \<^verbatim>\<open>failure.trap(NoSuchScalingGroupError, NoSuchPolicyError)\<close>
  raises any other failure again; otherwise the policy id is added to the set.
\<close>

definition collect_deleted_policy ::
  "string \<Rightarrow> failure \<Rightarrow> string set \<times> world \<Rightarrow> unit deferred \<times> (string set \<times> world)" where
  "collect_deleted_policy policy_id f s =
     (if f = NoSuchScalingGroupError \<or> f = NoSuchPolicyError
      then (Inr (), (insert policy_id (fst s), snd s))
      else (Inl f, s))"

text \<open>A handler that works on the world only, run beside the set of deleted policy ids.\<close>

definition on_world ::
  "(world \<Rightarrow> 'a deferred \<times> world) \<Rightarrow> string set \<times> world \<Rightarrow> 'a deferred \<times> (string set \<times> world)" where
  "on_world h s = (let (d, w) = h (snd s) in (d, (fst s, w)))"

definition execute_event ::
  "event \<Rightarrow> string set \<times> world \<Rightarrow> unit deferred \<times> (string set \<times> world)" where
  "execute_event ev s =
     (let tenant_id = tenantId ev; group_id = groupId ev; policy_id = policyId ev;
          w1 = log_msg (''Scheduler executing policy '' @ policy_id) (snd s);
          w2 = get_scaling_group tenant_id group_id w1;
          (d, w3) = modify_state tenant_id group_id policy_id (version ev) w2
      in addErrback
           (\<lambda>f. on_world (log_err (Some f) (''Scheduler failed to execute policy '' @ policy_id)))
           (addErrback (collect_deleted_policy policy_id)
              (addErrback
                 (\<lambda>f. on_world (ignore_and_log f CannotExecutePolicyError
                                   (''Scheduler cannot execute policy '' @ policy_id)))
                 (d, (fst s, w3)))))"

subsection \<open>Rescheduling the cron events\<close>

text \<open>
  \<^verbatim>\<open>next_cron_occurrence\<close> reads the clock and asks croniter; it raises what croniter
  raises.
\<close>

definition next_cron_occurrence :: "string \<Rightarrow> world \<Rightarrow> (failure + time) \<times> world" where
  "next_cron_occurrence c w = (let (now, w1) = utcnow w in (croniter w1 c now, w1))"

text \<open>Python's truth value of \<^verbatim>\<open>event['cron']\<close>: \<^verbatim>\<open>None\<close> and the empty string are false.\<close>

definition truthy :: "string option \<Rightarrow> bool" where
  "truthy c = (case c of None \<Rightarrow> False | Some s \<Rightarrow> s \<noteq> [])"

text \<open>
  The loop of \<^verbatim>\<open>add_cron_events\<close>.  The source stores the new trigger into the event
  dict itself and appends that dict; the list built is what matters here.  When
  \<^verbatim>\<open>next_cron_occurrence\<close> raises, the loop is left at once and no list is built.
\<close>

fun new_cron_events ::
  "event list \<Rightarrow> string set \<Rightarrow> world \<Rightarrow> (failure + event list) \<times> world" where
  "new_cron_events [] deleted_policy_ids w = (Inr [], w)"
| "new_cron_events (ev # evs) deleted_policy_ids w =
     (if truthy (cron ev) \<and> policyId ev \<notin> deleted_policy_ids
      then (case next_cron_occurrence (the (cron ev)) w of
              (Inl f, w1) \<Rightarrow> (Inl f, w1)
            | (Inr t, w1) \<Rightarrow>
                (case new_cron_events evs deleted_policy_ids w1 of
                   (Inl f, w2) \<Rightarrow> (Inl f, w2)
                 | (Inr rest, w2) \<Rightarrow> (Inr (ev\<lparr>trigger := t\<rparr> # rest), w2)))
      else new_cron_events evs deleted_policy_ids w)"

text \<open>
  \<^verbatim>\<open>add_cron_events\<close>.  An exception of the loop leaves the function before the log
  line and the call of the store; within \<^verbatim>\<open>process_events\<close> it is raised in a
  callback, and so is the failure of the Deferred.
\<close>

definition add_cron_events :: "event list \<Rightarrow> string set \<Rightarrow> world \<Rightarrow> unit deferred \<times> world" where
  "add_cron_events events deleted_policy_ids w =
     (if events = [] then (Inr (), w)
      else (case new_cron_events events deleted_policy_ids w of
              (Inl f, w1) \<Rightarrow> (Inl f, w1)
            | (Inr new, w1) \<Rightarrow>
                store_add_cron_events new (log_msg ''Adding {new_cron_events} cron events'' w1)))"

subsection \<open>Processing a batch\<close>

text \<open>
  The list comprehension of \<^verbatim>\<open>process_events\<close>: every event is executed, all on the one
  set \<^verbatim>\<open>deleted_policy_ids\<close>.  The Deferreds of a batch fire in any order; here they
  fire in the order of the list.  The order shows in the trace only: the set is grown by
  \<open>insert\<close> alone, and \<^verbatim>\<open>add_cron_events\<close> runs when
  \<^verbatim>\<open>gatherResults\<close> has fired, after all of them.
\<close>

fun execute_events ::
  "event list \<Rightarrow> string set \<times> world \<Rightarrow> unit deferred list \<times> (string set \<times> world)" where
  "execute_events [] s = ([], s)"
| "execute_events (ev # evs) s =
     (let (d, s1) = execute_event ev s;
          (ds, s2) = execute_events evs s1
      in (d # ds, s2))"

definition process_events :: "event list \<Rightarrow> world \<Rightarrow> int deferred \<times> world" where
  "process_events events w =
     (if events = [] then (Inr 0, w)
      else (let w1 = log_msg ''Processing {num_events} events'' w;
                (deferreds, (deleted_policy_ids, w2)) = execute_events events ({}, w1)
            in addCallback (\<lambda>_ w. (Inr (int (length events)), w))
                 (addCallback (\<lambda>_. add_cron_events events deleted_policy_ids)
                    (gatherResults deferreds, w2))))"

subsection \<open>Draining a bucket\<close>

text \<open>
  \<^verbatim>\<open>_do_check\<close> of \<^verbatim>\<open>check_events_in_bucket\<close>: fetch, \<^verbatim>\<open>process_events\<close>,
  \<^verbatim>\<open>check_for_more\<close>, and \<^verbatim>\<open>log.err\<close> as the errback of the chain.  When the number of
  processed events equals \<^verbatim>\<open>batchsize\<close>, \<^verbatim>\<open>check_for_more\<close> returns the Deferred of a
  new \<^verbatim>\<open>_do_check\<close>, whose outcome the chain then takes over.  The loop need not end, so
  its value is an option: \<open>None\<close> when it runs forever.
\<close>

partial_function (option) do_check ::
  "bucket \<Rightarrow> time \<Rightarrow> int \<Rightarrow> world \<Rightarrow> (unit deferred \<times> world) option" where
  "do_check b now batchsize w =
     (case addCallback process_events (fetch_and_delete b now batchsize w) of
        (Inl f, w1) \<Rightarrow> Some (log_err (Some f) [] w1)
      | (Inr num_events, w1) \<Rightarrow>
          if num_events = batchsize
          then Option.bind (do_check b now batchsize w1)
                 (\<lambda>r. Some (addErrback (\<lambda>f. log_err (Some f) []) r))
          else Some (Inr (), w1))"

definition check_events_in_bucket ::
  "bucket \<Rightarrow> time \<Rightarrow> int \<Rightarrow> world \<Rightarrow> (unit deferred \<times> world) option" where
  "check_events_in_bucket b now batchsize w = do_check b now batchsize w"

subsection \<open>The service\<close>

text \<open>
  The partitioner handle of \<^verbatim>\<open>kz_client.SetPartitioner\<close>: the four flags and the state
  the service reads, the buckets it yields when iterated, and what its
  \<^verbatim>\<open>release_set()\<close> and \<^verbatim>\<open>finish()\<close> fire with.
\<close>

record partitioner =
  allocating :: bool
  release :: bool
  failed :: bool
  allocated :: bool
  state :: string
  owned :: "bucket list"
  release_set_result :: "unit deferred"
  finish_result :: "unit deferred"

text \<open>\<^verbatim>\<open>kz_partition\<close> is \<^verbatim>\<open>None\<close> until \<^verbatim>\<open>startService\<close> has run.\<close>

record scheduler_service =
  batchsize :: int
  interval :: int
  kz_client :: "string \<Rightarrow> bucket set \<Rightarrow> nat \<Rightarrow> partitioner"
  zk_partition_path :: string
  buckets :: "bucket list"
  kz_partition :: "partitioner option"

definition SetPartitioner :: "scheduler_service \<Rightarrow> world \<Rightarrow> scheduler_service \<times> world" where
  "SetPartitioner svc w =
     (svc\<lparr>kz_partition :=
            Some (kz_client svc (zk_partition_path svc) (set (buckets svc)) 15)\<rparr>,
      emit (Set_partitioner (zk_partition_path svc) (set (buckets svc)) 15) w)"

definition release_set :: "partitioner \<Rightarrow> world \<Rightarrow> unit deferred \<times> world" where
  "release_set p w = (release_set_result p, emit Release_set w)"

definition finish :: "partitioner \<Rightarrow> world \<Rightarrow> unit deferred \<times> world" where
  "finish p w = (finish_result p, emit Finish w)"

text \<open>
  \<^verbatim>\<open>stopService\<close>.  Before \<^verbatim>\<open>startService\<close> there is neither a timer loop nor a
  partitioner, and the attribute access fails.
\<close>

definition stopService :: "scheduler_service \<Rightarrow> world \<Rightarrow> unit deferred \<times> world" where
  "stopService svc w =
     (case kz_partition svc of
        None \<Rightarrow> (Inl AttributeError, w)
      | Some p \<Rightarrow> finish p (emit Timer_stop w))"

text \<open>The list comprehension of \<^verbatim>\<open>check_events\<close>: one drain loop for each owned bucket.\<close>

fun check_buckets ::
  "bucket list \<Rightarrow> time \<Rightarrow> int \<Rightarrow> world \<Rightarrow> (unit deferred list \<times> world) option" where
  "check_buckets [] now n w = Some ([], w)"
| "check_buckets (b # bs) now n w =
     (case check_events_in_bucket b now n w of
        None \<Rightarrow> None
      | Some (d, w1) \<Rightarrow>
          (case check_buckets bs now n w1 of
             None \<Rightarrow> None
           | Some (ds, w2) \<Rightarrow> Some (d # ds, w2)))"

text \<open>
  \<^verbatim>\<open>check_events\<close>, the function the timer calls on every tick.  Its value is
  \<^verbatim>\<open>None\<close>, the Deferred of \<^verbatim>\<open>release_set()\<close>, or the gathered Deferred of the drain
  loops; the timer only tells a failure from a success.
\<close>

definition check_events ::
  "int \<Rightarrow> scheduler_service \<Rightarrow> world \<Rightarrow> (unit deferred \<times> scheduler_service \<times> world) option" where
  "check_events n svc w =
     (case kz_partition svc of
        None \<Rightarrow> Some (Inl AttributeError, svc, w)
      | Some p \<Rightarrow>
          if allocating p then Some (Inr (), svc, log_msg ''Partition allocating'' w)
          else if release p then
            (let (d, w1) = release_set p (log_msg ''Partition changed. Repartitioning'' w)
             in Some (d, svc, w1))
          else if failed p then
            (let (svc1, w1) = SetPartitioner svc (log_msg ''Partition failed. Starting new'' w)
             in Some (Inr (), svc1, w1))
          else if \<not> allocated p then
            (let (_, w1) = log_err None
                   (''Unknown state '' @ state p @ ''. This cannot happen. Starting new'') w;
                 (_, w2) = finish p w1;
                 (svc1, w3) = SetPartitioner svc w2
             in Some (Inr (), svc1, w3))
          else
            (let (now, w1) = utcnow w;
                 w2 = log_msg ''Got buckets {buckets}'' w1
             in case check_buckets (owned p) now n w2 of
                  None \<Rightarrow> None
                | Some (ds, w3) \<Rightarrow>
                    Some (case gatherResults ds of Inl f \<Rightarrow> Inl f | Inr _ \<Rightarrow> Inr (), svc, w3)))"

text \<open>
  \<^verbatim>\<open>startService\<close> joins the partitioning and starts the timer; the timer
  (\<^verbatim>\<open>TimerService\<close>, a looping call started with \<^verbatim>\<open>now=True\<close>) runs the first tick at
  once, with the batch size the service was made with.
\<close>

definition startService ::
  "scheduler_service \<Rightarrow> world \<Rightarrow> (scheduler_service \<times> world) option" where
  "startService svc w =
     (let (svc1, w1) = SetPartitioner svc w
      in case check_events (batchsize svc1) svc1 (emit Timer_start w1) of
           None \<Rightarrow> None
         | Some (_, svc2, w2) \<Rightarrow> Some (svc2, w2))"

subsection \<open>Reading the trace\<close>

text \<open>The actions that were added to the trace between two worlds.\<close>

definition since :: "world \<Rightarrow> world \<Rightarrow> action list" where
  "since w w' = drop (length (trace w)) (trace w')"

text \<open>The event lists handed to \<^verbatim>\<open>store.add_cron_events\<close>, in call order.\<close>

fun inserts :: "action list \<Rightarrow> event list list" where
  "inserts [] = []"
| "inserts (Add_cron_events evs # tr) = evs # inserts tr"
| "inserts (_ # tr) = inserts tr"

text \<open>The calls of \<^verbatim>\<open>modify_state\<close>: tenant, group, policy and version.\<close>

fun modified :: "action list \<Rightarrow> (string \<times> string \<times> string \<times> string) list" where
  "modified [] = []"
| "modified (Modify_state t g p v # tr) = (t, g, p, v) # modified tr"
| "modified (_ # tr) = modified tr"

text \<open>The calls of \<^verbatim>\<open>store.fetch_and_delete\<close>: bucket, time and batch size.\<close>

fun fetched :: "action list \<Rightarrow> (bucket \<times> time \<times> int) list" where
  "fetched [] = []"
| "fetched (Fetch_and_delete b t n # tr) = (b, t, n) # fetched tr"
| "fetched (_ # tr) = fetched tr"

definition executes :: "event \<Rightarrow> string \<times> string \<times> string \<times> string" where
  "executes ev = (tenantId ev, groupId ev, policyId ev, version ev)"

text \<open>
  What the \<open>i\<close>-th coming call of \<^verbatim>\<open>modify_state\<close> fires with, and whether that is one
  of the two failures of a target that has vanished.
\<close>

definition outcome_at :: "unit deferred list \<Rightarrow> nat \<Rightarrow> unit deferred" where
  "outcome_at rs i = (if i < length rs then rs ! i else Inr ())"

definition vanished :: "unit deferred \<Rightarrow> bool" where
  "vanished r = (r = Inl NoSuchScalingGroupError \<or> r = Inl NoSuchPolicyError)"

text \<open>
  The set \<^verbatim>\<open>deleted_policy_ids\<close> of \<^verbatim>\<open>process_events\<close> and the world, once every
  execution of the batch has settled; and the list \<^verbatim>\<open>new_cron_events\<close> that
  \<^verbatim>\<open>add_cron_events\<close> then builds, or the exception that ends its loop.
\<close>

definition settled :: "event list \<Rightarrow> world \<Rightarrow> string set \<times> world" where
  "settled events w = snd (execute_events events ({}, log_msg ''Processing {num_events} events'' w))"

definition rescheduled :: "event list \<Rightarrow> world \<Rightarrow> failure + event list" where
  "rescheduled events w =
     fst (new_cron_events events (fst (settled events w)) (snd (settled events w)))"

text \<open>The actions of one execution after the call of \<^verbatim>\<open>modify_state\<close> has fired.\<close>

fun handled :: "string \<Rightarrow> unit deferred \<Rightarrow> action list" where
  "handled p (Inr _) = []"
| "handled p (Inl f) =
     (if f = CannotExecutePolicyError then [Log_msg (''Scheduler cannot execute policy '' @ p)]
      else if f = NoSuchScalingGroupError \<or> f = NoSuchPolicyError then []
      else [Log_err (Some f) (''Scheduler failed to execute policy '' @ p)])"

fun executed :: "event list \<Rightarrow> unit deferred list \<Rightarrow> action list" where
  "executed [] rs = []"
| "executed (ev # evs) rs =
     [Log_msg (''Scheduler executing policy '' @ policyId ev),
      Get_scaling_group (tenantId ev) (groupId ev),
      Modify_state (tenantId ev) (groupId ev) (policyId ev) (version ev)]
     @ handled (policyId ev) (outcome_at rs 0) @ executed evs (tl rs)"

fun tombstones :: "event list \<Rightarrow> unit deferred list \<Rightarrow> string set" where
  "tombstones [] rs = {}"
| "tombstones (ev # evs) rs =
     (if vanished (outcome_at rs 0) then {policyId ev} else {}) \<union> tombstones evs (tl rs)"

text \<open>A fetch that returned exactly \<open>n\<close> events; the events a list of fetches returned.\<close>

definition full :: "int \<Rightarrow> event list deferred \<Rightarrow> bool" where
  "full n r = (case r of Inl _ \<Rightarrow> False | Inr evs \<Rightarrow> int (length evs) = n)"

fun returned :: "event list deferred list \<Rightarrow> event list" where
  "returned [] = []"
| "returned (Inl _ # rs) = returned rs"
| "returned (Inr evs # rs) = evs @ returned rs"

text \<open>
  The actions of \<^verbatim>\<open>add_cron_events\<close> after its loop: none when the loop was left by an
  exception, else the log line and the call of the store with the list built.
\<close>

fun inserting :: "failure + event list \<Rightarrow> action list" where
  "inserting (Inl f) = []"
| "inserting (Inr new) =
     [Log_msg ''Adding {new_cron_events} cron events'', Add_cron_events new]"

subsection \<open>Example events and worlds\<close>

text \<open>
  Two events of the recurring policy \<open>p1\<close>, a one-shot event of policy \<open>p2\<close>, an
  event of policy \<open>p3\<close> whose cron entry croniter cannot read, and a world in which the
  store and the groups succeed and no event is due.
\<close>

definition hourly :: event where
  "hourly = \<lparr>tenantId = ''t1'', groupId = ''g1'', policyId = ''p1'', trigger = 10,
              cron = Some ''0 * * * *'', version = ''v1''\<rparr>"

definition hourly_again :: event where
  "hourly_again = \<lparr>tenantId = ''t1'', groupId = ''g1'', policyId = ''p1'', trigger = 20,
                    cron = Some ''0 * * * *'', version = ''v1''\<rparr>"

definition once :: event where
  "once = \<lparr>tenantId = ''t1'', groupId = ''g1'', policyId = ''p2'', trigger = 10,
            cron = None, version = ''v1''\<rparr>"

definition unreadable :: event where
  "unreadable = \<lparr>tenantId = ''t1'', groupId = ''g1'', policyId = ''p3'', trigger = 10,
                  cron = Some ''bogus'', version = ''v1''\<rparr>"

definition quiet :: world where
  "quiet = \<lparr>trace = [], fetch_results = [], modify_results = [], insert_results = [],
             clock = (\<lambda>n. 100 + int n), ticks = 0,
             croniter = (\<lambda>c t. if c = ''bogus'' then Inl (OtherError ''bad cron'')
                                else Inr (t + 60))\<rparr>"

text \<open>
  A bucket with three due events, which the store hands out two at a time; a store
  whose bulk insert fails; and a bucket whose first due event has the unreadable cron
  entry.
\<close>

definition three_due :: world where
  "three_due = quiet\<lparr>fetch_results := [Inr [once, hourly], Inr [hourly_again]]\<rparr>"

definition insert_down :: world where
  "insert_down = quiet\<lparr>fetch_results := [Inr [hourly], Inr [once]],
                        insert_results := [Inl (OtherError ''down'')]\<rparr>"

definition unreadable_due :: world where
  "unreadable_due = quiet\<lparr>fetch_results := [Inr [unreadable], Inr [once]]\<rparr>"

text \<open>
  A partitioner that holds two buckets, one that is still joining, and one that must
  release its buckets but whose release fails; a running service.
\<close>

definition joined :: partitioner where
  "joined = \<lparr>allocating = False, release = False, failed = False, allocated = True,
              state = ''ALLOCATED'', owned = [0, 1],
              release_set_result = Inr (), finish_result = Inr ()\<rparr>"

definition joining :: partitioner where
  "joining = joined\<lparr>allocating := True, allocated := False, state := ''ALLOCATING'', owned := []\<rparr>"

definition releasing :: partitioner where
  "releasing = joined\<lparr>release := True, allocated := False, state := ''RELEASE'',
                       release_set_result := Inl (OtherError ''session lost'')\<rparr>"

definition service :: scheduler_service where
  "service = \<lparr>batchsize = 2, interval = 10, kz_client = (\<lambda>path bs time_boundary. joining),
               zk_partition_path = ''/part'', buckets = [0, 1, 2], kz_partition = Some joined\<rparr>"

section \<open>Properties\<close>

subsection \<open>The examples\<close>

lemma quiet_fields [simp]:
  "trace quiet = []" "fetch_results quiet = []" "modify_results quiet = []"
  "insert_results quiet = []" "ticks quiet = 0" "clock quiet n = 100 + int n"
  "croniter quiet c t = (if c = ''bogus'' then Inl (OtherError ''bad cron'') else Inr (t + 60))"
  by (simp_all add: quiet_def)

lemma example_events [simp]:
  "policyId hourly = ''p1''" "policyId hourly_again = ''p1''" "policyId once = ''p2''"
  "policyId unreadable = ''p3''" "cron unreadable = Some ''bogus''" "tenantId unreadable = ''t1''"
  "groupId unreadable = ''g1''" "version unreadable = ''v1''"
  "cron hourly = Some ''0 * * * *''" "cron hourly_again = Some ''0 * * * *''" "cron once = None"
  "tenantId hourly = ''t1''" "tenantId hourly_again = ''t1''" "tenantId once = ''t1''"
  "groupId hourly = ''g1''" "groupId hourly_again = ''g1''" "groupId once = ''g1''"
  "version hourly = ''v1''" "version hourly_again = ''v1''" "version once = ''v1''"
  by (simp_all add: hourly_def hourly_again_def once_def unreadable_def)

subsection \<open>Traces\<close>

lemma since_append: "trace w' = trace w @ xs \<Longrightarrow> since w w' = xs"
  by (simp add: since_def)

lemma since_self: "since w w = []"
  by (simp add: since_def)

lemma inserts_append: "inserts (xs @ ys) = inserts xs @ inserts ys"
  by (induction xs rule: inserts.induct) simp_all

lemma modified_append: "modified (xs @ ys) = modified xs @ modified ys"
  by (induction xs rule: modified.induct) simp_all

lemma fetched_append: "fetched (xs @ ys) = fetched xs @ fetched ys"
  by (induction xs rule: fetched.induct) simp_all

lemma inserts_handled: "inserts (handled p r) = []"
  by (cases r) simp_all

lemma modified_handled: "modified (handled p r) = []"
  by (cases r) simp_all

lemma fetched_handled: "fetched (handled p r) = []"
  by (cases r) simp_all

lemma inserts_executed: "inserts (executed es rs) = []"
  by (induction es arbitrary: rs) (simp_all add: inserts_append inserts_handled)

lemma fetched_executed: "fetched (executed es rs) = []"
  by (induction es arbitrary: rs) (simp_all add: fetched_append fetched_handled)

lemma modified_executed: "modified (executed es rs) = map executes es"
  by (induction es arbitrary: rs) (simp_all add: modified_append modified_handled executes_def)

subsection \<open>One execution, and a batch of them\<close>

lemma outcome_at_tl: "outcome_at (tl rs) i = outcome_at rs (Suc i)"
  by (cases rs) (simp_all add: outcome_at_def)

lemma execute_event_eq:
  "execute_event ev (dp, w) =
     (Inr (),
      (if vanished (outcome_at (modify_results w) 0) then insert (policyId ev) dp else dp,
       w\<lparr>trace := trace w @ executed [ev] (modify_results w),
         modify_results := tl (modify_results w)\<rparr>))"
proof (cases "modify_results w")
  case Nil
  then show ?thesis
    by (simp add: execute_event_def modify_state_def get_scaling_group_def log_msg_def emit_def
        addErrback_def outcome_at_def vanished_def Let_def)
next
  case (Cons r rs)
  show ?thesis
  proof (cases r)
    case (Inl f)
    with Cons show ?thesis
      by (cases f) (simp_all add: execute_event_def modify_state_def get_scaling_group_def
          log_msg_def emit_def addErrback_def outcome_at_def vanished_def on_world_def
          ignore_and_log_def collect_deleted_policy_def log_err_def Let_def)
  next
    case (Inr u)
    with Cons show ?thesis
      by (simp add: execute_event_def modify_state_def get_scaling_group_def log_msg_def emit_def
          addErrback_def outcome_at_def vanished_def Let_def)
  qed
qed

lemma execute_events_eq:
  "execute_events es (dp, w) =
     (replicate (length es) (Inr ()),
      (dp \<union> tombstones es (modify_results w),
       w\<lparr>trace := trace w @ executed es (modify_results w),
         modify_results := drop (length es) (modify_results w)\<rparr>))"
proof (induction es arbitrary: dp w)
  case Nil
  show ?case by simp
next
  case (Cons ev es)
  show ?case
    by (simp add: execute_event_eq Cons.IH drop_Suc)
qed

lemma tombstones_iff:
  "p \<in> tombstones es rs \<longleftrightarrow>
     (\<exists>i<length es. policyId (es ! i) = p \<and> vanished (outcome_at rs i))"
proof (induction es arbitrary: rs)
  case Nil
  show ?case by simp
next
  case (Cons ev es)
  show ?case
    by (auto simp: Cons.IH outcome_at_tl less_Suc_eq_0_disj)
qed

lemma handled_in_executed:
  "i < length es \<Longrightarrow> set (handled (policyId (es ! i)) (outcome_at rs i)) \<subseteq> set (executed es rs)"
proof (induction es arbitrary: rs i)
  case Nil
  then show ?case by simp
next
  case (Cons ev es)
  show ?case
  proof (cases i)
    case 0
    then show ?thesis by auto
  next
    case (Suc j)
    with Cons.prems have "j < length es" by simp
    from Cons.IH [OF this, of "tl rs"] Suc show ?thesis
      by (auto simp: outcome_at_tl)
  qed
qed

lemma gatherResults_replicate: "gatherResults (replicate n (Inr v)) = Inr (replicate n v)"
  by (induction n) simp_all

lemma settled_eq:
  "settled es w =
     (tombstones es (modify_results w),
      w\<lparr>trace := trace w @ Log_msg ''Processing {num_events} events'' # executed es (modify_results w),
        modify_results := drop (length es) (modify_results w)\<rparr>)"
  by (simp add: settled_def execute_events_eq log_msg_def emit_def)

subsection \<open>The rescheduling loop\<close>

lemma next_cron_occurrence_eq:
  "next_cron_occurrence c w = (croniter w c (clock w (ticks w)), w\<lparr>ticks := ticks w + 1\<rparr>)"
  by (simp add: next_cron_occurrence_def utcnow_def)

lemma new_cron_events_Cons:
  "new_cron_events (ev # es) dp w =
     (if truthy (cron ev) \<and> policyId ev \<notin> dp
      then (case fst (next_cron_occurrence (the (cron ev)) w) of
              Inl f \<Rightarrow> (Inl f, w\<lparr>ticks := ticks w + 1\<rparr>)
            | Inr t \<Rightarrow>
                (case fst (new_cron_events es dp (w\<lparr>ticks := ticks w + 1\<rparr>)) of
                   Inl f \<Rightarrow> Inl f
                 | Inr rest \<Rightarrow> Inr (ev\<lparr>trigger := t\<rparr> # rest),
                 snd (new_cron_events es dp (w\<lparr>ticks := ticks w + 1\<rparr>))))
      else new_cron_events es dp w)"
  by (simp add: next_cron_occurrence_eq split: prod.splits sum.splits)

lemma new_cron_events_skip:
  "\<not> (truthy (cron ev) \<and> policyId ev \<notin> dp) \<Longrightarrow>
     new_cron_events (ev # es) dp w = new_cron_events es dp w"
  by auto

lemma new_cron_events_world:
  "\<exists>k. snd (new_cron_events es dp w) = w\<lparr>ticks := ticks w + k\<rparr>"
proof (induction es arbitrary: w)
  case Nil
  show ?case by (simp add: exI[of _ 0])
next
  case (Cons ev es)
  show ?case
  proof (cases "truthy (cron ev) \<and> policyId ev \<notin> dp")
    case False
    show ?thesis
      using Cons.IH [of w] by (simp only: new_cron_events_skip [OF False])
  next
    case True
    show ?thesis
    proof (cases "fst (next_cron_occurrence (the (cron ev)) w)")
      case (Inl f)
      with True have "snd (new_cron_events (ev # es) dp w) = w\<lparr>ticks := ticks w + 1\<rparr>"
        by (simp add: new_cron_events_Cons del: new_cron_events.simps)
      then show ?thesis by blast
    next
      case (Inr t)
      obtain k where k: "snd (new_cron_events es dp (w\<lparr>ticks := ticks w + 1\<rparr>))
          = w\<lparr>ticks := ticks w + 1\<rparr>\<lparr>ticks := ticks (w\<lparr>ticks := ticks w + 1\<rparr>) + k\<rparr>"
        using Cons.IH by blast
      from True Inr have "snd (new_cron_events (ev # es) dp w)
          = snd (new_cron_events es dp (w\<lparr>ticks := ticks w + 1\<rparr>))"
        by (simp add: new_cron_events_Cons del: new_cron_events.simps)
      with k have "snd (new_cron_events (ev # es) dp w) = w\<lparr>ticks := ticks w + (k + 1)\<rparr>"
        by (simp add: add.commute add.left_commute)
      then show ?thesis by blast
    qed
  qed
qed

lemma trace_new_cron_events: "trace (snd (new_cron_events es dp w)) = trace w"
  using new_cron_events_world [of es dp w] by auto

lemma insert_results_new_cron_events:
  "insert_results (snd (new_cron_events es dp w)) = insert_results w"
  using new_cron_events_world [of es dp w] by auto

lemma fetch_results_new_cron_events:
  "fetch_results (snd (new_cron_events es dp w)) = fetch_results w"
  using new_cron_events_world [of es dp w] by auto

lemma croniter_new_cron_events:
  "croniter (snd (new_cron_events es dp w)) = croniter w"
  using new_cron_events_world [of es dp w] by auto

lemma new_cron_events_sound:
  "fst (new_cron_events es dp w) = Inr new \<Longrightarrow> e \<in> set new \<Longrightarrow>
     \<exists>e0 \<in> set es. truthy (cron e0) \<and> policyId e0 \<notin> dp \<and>
       (\<exists>k. fst (next_cron_occurrence (the (cron e0)) (w\<lparr>ticks := ticks w + k\<rparr>))
               = Inr (trigger e)
            \<and> e = e0\<lparr>trigger := trigger e\<rparr>)"
proof (induction es arbitrary: w new)
  case Nil
  then show ?case by simp
next
  case (Cons ev es)
  show ?case
  proof (cases "truthy (cron ev) \<and> policyId ev \<notin> dp")
    case False
    with Cons.prems have "fst (new_cron_events es dp w) = Inr new"
      by (simp only: new_cron_events_skip [OF False])
    from Cons.IH [OF this Cons.prems(2)] show ?thesis by auto
  next
    case True
    with Cons.prems(1) obtain t rest where
      t: "fst (next_cron_occurrence (the (cron ev)) w) = Inr t"
      and rest: "fst (new_cron_events es dp (w\<lparr>ticks := ticks w + 1\<rparr>)) = Inr rest"
      and new: "new = ev\<lparr>trigger := t\<rparr> # rest"
      by (auto simp: new_cron_events_Cons simp del: new_cron_events.simps split: sum.splits)
    from Cons.prems(2) new consider "e = ev\<lparr>trigger := t\<rparr>" | "e \<in> set rest" by auto
    then show ?thesis
    proof cases
      case 1
      have "fst (next_cron_occurrence (the (cron ev)) (w\<lparr>ticks := ticks w + 0\<rparr>)) = Inr (trigger e)
          \<and> e = ev\<lparr>trigger := trigger e\<rparr>"
        using 1 t by simp
      with True show ?thesis by (metis list.set_intros(1))
    next
      case 2
      from Cons.IH [OF rest 2] obtain e0 k where
        "e0 \<in> set es" "truthy (cron e0)" "policyId e0 \<notin> dp"
        "fst (next_cron_occurrence (the (cron e0))
               (w\<lparr>ticks := ticks w + 1\<rparr>\<lparr>ticks := ticks (w\<lparr>ticks := ticks w + 1\<rparr>) + k\<rparr>))
           = Inr (trigger e)"
        "e = e0\<lparr>trigger := trigger e\<rparr>"
        by blast
      then have "e0 \<in> set (ev # es) \<and> truthy (cron e0) \<and> policyId e0 \<notin> dp \<and>
          fst (next_cron_occurrence (the (cron e0)) (w\<lparr>ticks := ticks w + (1 + k)\<rparr>))
            = Inr (trigger e)
          \<and> e = e0\<lparr>trigger := trigger e\<rparr>"
        by (simp add: add.assoc)
      then show ?thesis by blast
    qed
  qed
qed

lemma new_cron_events_complete:
  "fst (new_cron_events es dp w) = Inr new \<Longrightarrow>
   e0 \<in> set es \<Longrightarrow> truthy (cron e0) \<Longrightarrow> policyId e0 \<notin> dp \<Longrightarrow>
     \<exists>k t. fst (next_cron_occurrence (the (cron e0)) (w\<lparr>ticks := ticks w + k\<rparr>)) = Inr t
          \<and> e0\<lparr>trigger := t\<rparr> \<in> set new"
proof (induction es arbitrary: w new)
  case Nil
  then show ?case by simp
next
  case (Cons ev es)
  show ?case
  proof (cases "truthy (cron ev) \<and> policyId ev \<notin> dp")
    case False
    with Cons.prems have mem: "e0 \<in> set es" by auto
    from Cons.prems(1) have "fst (new_cron_events es dp w) = Inr new"
      by (simp only: new_cron_events_skip [OF False])
    from Cons.IH [OF this mem Cons.prems(3,4)] show ?thesis .
  next
    case True
    with Cons.prems(1) obtain t rest where
      t: "fst (next_cron_occurrence (the (cron ev)) w) = Inr t"
      and rest: "fst (new_cron_events es dp (w\<lparr>ticks := ticks w + 1\<rparr>)) = Inr rest"
      and new: "new = ev\<lparr>trigger := t\<rparr> # rest"
      by (auto simp: new_cron_events_Cons simp del: new_cron_events.simps split: sum.splits)
    show ?thesis
    proof (cases "e0 = ev")
      case True
      have "fst (next_cron_occurrence (the (cron e0)) (w\<lparr>ticks := ticks w + 0\<rparr>)) = Inr t
          \<and> e0\<lparr>trigger := t\<rparr> \<in> set new"
        using True t new by simp
      then show ?thesis by blast
    next
      case False
      with Cons.prems(2) have mem: "e0 \<in> set es" by simp
      from Cons.IH [OF rest mem Cons.prems(3,4)] obtain k t' where
        "fst (next_cron_occurrence (the (cron e0))
               (w\<lparr>ticks := ticks w + 1\<rparr>\<lparr>ticks := ticks (w\<lparr>ticks := ticks w + 1\<rparr>) + k\<rparr>)) = Inr t'"
        "e0\<lparr>trigger := t'\<rparr> \<in> set rest"
        by blast
      then have "fst (next_cron_occurrence (the (cron e0)) (w\<lparr>ticks := ticks w + (1 + k)\<rparr>)) = Inr t'
          \<and> e0\<lparr>trigger := t'\<rparr> \<in> set new"
        by (simp add: new add.assoc)
      then show ?thesis by blast
    qed
  qed
qed

lemma new_cron_events_none:
  "\<forall>e \<in> set es. \<not> truthy (cron e) \<or> policyId e \<in> dp \<Longrightarrow> new_cron_events es dp w = (Inr [], w)"
  by (induction es arbitrary: w) auto

lemma new_cron_events_total:
  "\<forall>e \<in> set es. truthy (cron e) \<longrightarrow> (\<forall>t. \<exists>t'. croniter w (the (cron e)) t = Inr t') \<Longrightarrow>
     \<exists>new. fst (new_cron_events es dp w) = Inr new"
proof (induction es arbitrary: w)
  case Nil
  show ?case by simp
next
  case (Cons ev es)
  show ?case
  proof (cases "truthy (cron ev) \<and> policyId ev \<notin> dp")
    case False
    from Cons.prems
    have "\<forall>e \<in> set es. truthy (cron e) \<longrightarrow> (\<forall>t. \<exists>t'. croniter w (the (cron e)) t = Inr t')"
      by simp
    from Cons.IH [OF this] show ?thesis
      by (simp only: new_cron_events_skip [OF False])
  next
    case True
    from Cons.prems True have "\<exists>t'. croniter w (the (cron ev)) (clock w (ticks w)) = Inr t'"
      by simp
    then obtain t where t: "fst (next_cron_occurrence (the (cron ev)) w) = Inr t"
      by (auto simp: next_cron_occurrence_eq)
    have "\<forall>e \<in> set es. truthy (cron e) \<longrightarrow>
        (\<forall>t. \<exists>t'. croniter (w\<lparr>ticks := ticks w + 1\<rparr>) (the (cron e)) t = Inr t')"
      using Cons.prems by simp
    from Cons.IH [OF this] obtain rest where
      "fst (new_cron_events es dp (w\<lparr>ticks := ticks w + 1\<rparr>)) = Inr rest"
      by blast
    with True t show ?thesis
      by (simp add: new_cron_events_Cons del: new_cron_events.simps)
  qed
qed

subsection \<open>\<^verbatim>\<open>add_cron_events\<close> and \<^verbatim>\<open>process_events\<close>\<close>

lemma trace_store_add_cron_events:
  "trace (snd (store_add_cron_events evs w)) = trace w @ [Add_cron_events evs]"
  by (simp add: store_add_cron_events_def emit_def Let_def split: list.splits)

lemma fst_store_add_cron_events:
  "fst (store_add_cron_events evs w) = (case insert_results w of [] \<Rightarrow> Inr () | r # _ \<Rightarrow> r)"
  by (simp add: store_add_cron_events_def emit_def Let_def split: list.splits)

lemma fetch_results_store_add_cron_events:
  "fetch_results (snd (store_add_cron_events evs w)) = fetch_results w"
  by (simp add: store_add_cron_events_def emit_def Let_def split: list.splits)

lemma croniter_store_add_cron_events:
  "croniter (snd (store_add_cron_events evs w)) = croniter w"
  by (simp add: store_add_cron_events_def emit_def Let_def split: list.splits)

lemma insert_results_store_add_cron_events:
  "insert_results (snd (store_add_cron_events evs w)) = tl (insert_results w)"
  by (simp add: store_add_cron_events_def emit_def Let_def split: list.splits)

lemma add_cron_events_eq:
  "es \<noteq> [] \<Longrightarrow>
     add_cron_events es dp w =
       (case fst (new_cron_events es dp w) of
          Inl f \<Rightarrow> (Inl f, snd (new_cron_events es dp w))
        | Inr new \<Rightarrow>
            store_add_cron_events new
              (log_msg ''Adding {new_cron_events} cron events'' (snd (new_cron_events es dp w))))"
  by (simp add: add_cron_events_def split: prod.splits sum.splits)

lemma trace_add_cron_events:
  "es \<noteq> [] \<Longrightarrow>
     trace (snd (add_cron_events es dp w)) = trace w @ inserting (fst (new_cron_events es dp w))"
  by (cases "fst (new_cron_events es dp w)")
    (simp_all add: add_cron_events_eq trace_store_add_cron_events log_msg_def emit_def
      trace_new_cron_events del: new_cron_events.simps)

lemma fst_add_cron_events:
  "es \<noteq> [] \<Longrightarrow>
     fst (add_cron_events es dp w) =
       (case fst (new_cron_events es dp w) of
          Inl f \<Rightarrow> Inl f
        | Inr _ \<Rightarrow> (case insert_results w of [] \<Rightarrow> Inr () | r # _ \<Rightarrow> r))"
  by (cases "fst (new_cron_events es dp w)")
    (simp_all add: add_cron_events_eq fst_store_add_cron_events log_msg_def emit_def
      insert_results_new_cron_events del: new_cron_events.simps)

lemma insert_results_add_cron_events:
  "es \<noteq> [] \<Longrightarrow>
     insert_results (snd (add_cron_events es dp w)) =
       (case fst (new_cron_events es dp w) of
          Inl f \<Rightarrow> insert_results w
        | Inr _ \<Rightarrow> tl (insert_results w))"
  by (cases "fst (new_cron_events es dp w)")
    (simp_all add: add_cron_events_eq insert_results_store_add_cron_events log_msg_def emit_def
      insert_results_new_cron_events del: new_cron_events.simps)

lemma fetch_results_add_cron_events:
  "fetch_results (snd (add_cron_events es dp w)) = fetch_results w"
proof (cases "es = []")
  case True
  then show ?thesis by (simp add: add_cron_events_def)
next
  case False
  then show ?thesis
    by (cases "fst (new_cron_events es dp w)")
      (simp_all add: add_cron_events_eq fetch_results_store_add_cron_events log_msg_def emit_def
        fetch_results_new_cron_events del: new_cron_events.simps)
qed

lemma croniter_add_cron_events:
  "croniter (snd (add_cron_events es dp w)) = croniter w"
proof (cases "es = []")
  case True
  then show ?thesis by (simp add: add_cron_events_def)
next
  case False
  then show ?thesis
    by (cases "fst (new_cron_events es dp w)")
      (simp_all add: add_cron_events_eq croniter_store_add_cron_events log_msg_def emit_def
        croniter_new_cron_events del: new_cron_events.simps)
qed

lemma process_events_eq:
  "es \<noteq> [] \<Longrightarrow>
     process_events es w =
       (case fst (add_cron_events es (fst (settled es w)) (snd (settled es w))) of
          Inl f \<Rightarrow> Inl f | Inr _ \<Rightarrow> Inr (int (length es)),
        snd (add_cron_events es (fst (settled es w)) (snd (settled es w))))"
proof -
  assume ne: "es \<noteq> []"
  obtain ds dp w2 where ex: "execute_events es ({}, log_msg ''Processing {num_events} events'' w) = (ds, (dp, w2))"
    by (metis prod.exhaust)
  then have ds: "ds = replicate (length es) (Inr ())"
    by (simp add: execute_events_eq)
  obtain r w3 where ad: "add_cron_events es dp w2 = (r, w3)"
    by (metis prod.exhaust)
  show ?thesis
    using ne ex ad
    by (cases r) (simp_all add: process_events_def settled_def ds gatherResults_replicate
        addCallback_def)
qed

lemma insert_results_settled: "insert_results (snd (settled es w)) = insert_results w"
  by (simp add: settled_eq)

lemma fetch_results_settled: "fetch_results (snd (settled es w)) = fetch_results w"
  by (simp add: settled_eq)

lemma croniter_settled: "croniter (snd (settled es w)) = croniter w"
  by (simp add: settled_eq)

lemma trace_process_events:
  "es \<noteq> [] \<Longrightarrow>
     trace (snd (process_events es w)) =
       trace w @ Log_msg ''Processing {num_events} events'' # executed es (modify_results w)
         @ inserting (rescheduled es w)"
  by (simp add: process_events_eq trace_add_cron_events rescheduled_def)
    (simp add: settled_eq)

lemma fst_process_events:
  "fst (process_events es w) =
     (if es = [] then Inr 0
      else case rescheduled es w of
             Inl f \<Rightarrow> Inl f
           | Inr _ \<Rightarrow>
               (case insert_results w of
                  [] \<Rightarrow> Inr (int (length es))
                | Inl f # _ \<Rightarrow> Inl f
                | Inr _ # _ \<Rightarrow> Inr (int (length es))))"
proof (cases "es = []")
  case True
  then show ?thesis by (simp add: process_events_def)
next
  case False
  then show ?thesis
    by (simp add: process_events_eq fst_add_cron_events insert_results_settled rescheduled_def
        split: list.splits sum.splits)
qed

lemma set_insert_results_process_events:
  "set (insert_results (snd (process_events es w))) \<subseteq> set (insert_results w)"
proof (cases "es = []")
  case True
  then show ?thesis by (simp add: process_events_def)
next
  case False
  have "set (tl (insert_results w)) \<subseteq> set (insert_results w)"
    by (cases "insert_results w") auto
  with False show ?thesis
    by (simp add: process_events_eq insert_results_add_cron_events insert_results_settled
        split: sum.splits)
qed

lemma fetch_results_process_events:
  "fetch_results (snd (process_events es w)) = fetch_results w"
proof (cases "es = []")
  case True
  then show ?thesis by (simp add: process_events_def)
next
  case False
  then show ?thesis
    by (simp add: process_events_eq fetch_results_add_cron_events fetch_results_settled)
qed

lemma croniter_process_events:
  "croniter (snd (process_events es w)) = croniter w"
proof (cases "es = []")
  case True
  then show ?thesis by (simp add: process_events_def)
next
  case False
  then show ?thesis
    by (simp add: process_events_eq croniter_add_cron_events croniter_settled)
qed

subsection \<open>Claims about a batch\<close>

lemma inserts_inserting:
  "inserts (inserting r) = (case r of Inl f \<Rightarrow> [] | Inr new \<Rightarrow> [new])"
  by (cases r) simp_all

lemma modified_inserting: "modified (inserting r) = []"
  by (cases r) simp_all

lemma fetched_inserting: "fetched (inserting r) = []"
  by (cases r) simp_all

lemma since_process_events:
  "es \<noteq> [] \<Longrightarrow>
     since w (snd (process_events es w)) =
       Log_msg ''Processing {num_events} events'' # executed es (modify_results w)
         @ inserting (rescheduled es w)"
  by (rule since_append) (simp add: trace_process_events)

lemma since_process_events_Nil: "since w (snd (process_events [] w)) = []"
  by (simp add: process_events_def since_self)

lemma inserts_process_events:
  "inserts (since w (snd (process_events es w))) =
     (if es = [] then [] else case rescheduled es w of Inl f \<Rightarrow> [] | Inr new \<Rightarrow> [new])"
  by (simp add: since_process_events since_process_events_Nil inserts_append inserts_executed
      inserts_inserting)

lemma modified_process_events:
  "modified (since w (snd (process_events es w))) = map executes es"
  by (cases "es = []")
    (simp_all add: since_process_events since_process_events_Nil modified_append
      modified_executed modified_inserting)

lemma since_add_cron_events:
  "since w (snd (add_cron_events es dp w)) =
     (if es = [] then [] else inserting (fst (new_cron_events es dp w)))"
proof (cases "es = []")
  case True
  then show ?thesis by (simp add: add_cron_events_def since_self)
next
  case False
  then show ?thesis by (simp add: since_append trace_add_cron_events)
qed

lemma inserts_add_cron_events:
  "inserts (since w (snd (add_cron_events es dp w))) =
     (if es = [] then []
      else case fst (new_cron_events es dp w) of Inl f \<Rightarrow> [] | Inr new \<Rightarrow> [new])"
  by (simp add: since_add_cron_events inserts_inserting)

lemma same_but_trigger:
  "e = e0\<lparr>trigger := t\<rparr> \<Longrightarrow>
     tenantId e = tenantId e0 \<and> groupId e = groupId e0 \<and> policyId e = policyId e0
     \<and> cron e = cron e0 \<and> version e = version e0"
  by simp

lemma in_inserts_process_events:
  "evs \<in> set (inserts (since w (snd (process_events es w)))) \<Longrightarrow> rescheduled es w = Inr evs"
  by (cases "rescheduled es w") (auto simp: inserts_process_events split: if_splits)

lemma in_inserts_add_cron_events:
  "evs \<in> set (inserts (since w (snd (add_cron_events es dp w)))) \<Longrightarrow>
     fst (new_cron_events es dp w) = Inr evs"
  by (cases "fst (new_cron_events es dp w)") (auto simp: inserts_add_cron_events split: if_splits)

lemma next_cron_occurrence_settled:
  "fst (next_cron_occurrence c (snd (settled es w)\<lparr>ticks := ticks (snd (settled es w)) + k\<rparr>)) =
     fst (next_cron_occurrence c (w\<lparr>ticks := ticks w + k\<rparr>))"
  by (simp add: settled_eq next_cron_occurrence_def utcnow_def)

lemma rescheduled_sound:
  assumes "rescheduled es w = Inr new" and "e \<in> set new"
  shows "\<exists>e0 \<in> set es. truthy (cron e0) \<and> policyId e0 \<notin> fst (settled es w) \<and>
           (\<exists>k. fst (next_cron_occurrence (the (cron e0)) (w\<lparr>ticks := ticks w + k\<rparr>))
                   = Inr (trigger e)
                \<and> e = e0\<lparr>trigger := trigger e\<rparr>)"
  using new_cron_events_sound [OF assms(1) [unfolded rescheduled_def] assms(2)]
  by (simp only: next_cron_occurrence_settled)

lemma rescheduled_complete:
  assumes "rescheduled es w = Inr new"
    and "e0 \<in> set es" and "truthy (cron e0)" and "policyId e0 \<notin> fst (settled es w)"
  shows "\<exists>k t. fst (next_cron_occurrence (the (cron e0)) (w\<lparr>ticks := ticks w + k\<rparr>)) = Inr t
           \<and> e0\<lparr>trigger := t\<rparr> \<in> set new"
  using new_cron_events_complete [OF assms(1) [unfolded rescheduled_def] assms(2-4)]
  by (simp only: next_cron_occurrence_settled)

lemma rescheduled_total:
  assumes "\<forall>e \<in> set es. truthy (cron e) \<longrightarrow> (\<forall>t. \<exists>t'. croniter w (the (cron e)) t = Inr t')"
  shows "\<exists>new. rescheduled es w = Inr new"
proof -
  have "\<forall>e \<in> set es. truthy (cron e) \<longrightarrow>
      (\<forall>t. \<exists>t'. croniter (snd (settled es w)) (the (cron e)) t = Inr t')"
    using assms by (simp add: croniter_settled)
  from new_cron_events_total [OF this] show ?thesis
    by (simp add: rescheduled_def)
qed

lemma fst_settled_iff:
  "p \<in> fst (settled es w) \<longleftrightarrow>
     (\<exists>i<length es. policyId (es ! i) = p \<and> vanished (outcome_at (modify_results w) i))"
  by (simp add: settled_eq tombstones_iff)

text \<open>
  C1.  In a batch, an event whose execution fails with \<^verbatim>\<open>NoSuchScalingGroupError\<close> or
  \<^verbatim>\<open>NoSuchPolicyError\<close> has its policy id in the set of deleted policy ids once the
  batch has settled; every event of the batch is executed all the same; and no event with
  a policy id of that set is in a list handed to \<^verbatim>\<open>store.add_cron_events\<close>, so no event
  of the batch with the policy id of the failed one is reinserted, wherever it stands in
  the batch and however its own execution went.
\<close>

theorem vanished_policy_is_not_reinserted:
  assumes "i < length events"
    and "vanished (outcome_at (modify_results w) i)"
  shows "policyId (events ! i) \<in> fst (settled events w)
       \<and> modified (since w (snd (process_events events w))) = map executes events
       \<and> (\<forall>evs \<in> set (inserts (since w (snd (process_events events w)))).
            \<forall>e \<in> set evs. policyId e \<notin> fst (settled events w))
       \<and> (\<forall>evs \<in> set (inserts (since w (snd (process_events events w)))).
            \<forall>j < length events. \<forall>t.
              policyId (events ! j) = policyId (events ! i) \<longrightarrow>
              (events ! j)\<lparr>trigger := t\<rparr> \<notin> set evs)"
proof -
  have a: "policyId (events ! i) \<in> fst (settled events w)"
    using assms fst_settled_iff by blast
  have c: "policyId e \<notin> fst (settled events w)"
    if "evs \<in> set (inserts (since w (snd (process_events events w))))" and "e \<in> set evs"
    for evs e
  proof -
    from rescheduled_sound [OF in_inserts_process_events [OF that(1)] that(2)]
    obtain e0 where "policyId e0 \<notin> fst (settled events w)" "e = e0\<lparr>trigger := trigger e\<rparr>"
      by blast
    with same_but_trigger [OF this(2)] show ?thesis by simp
  qed
  have d: "(events ! j)\<lparr>trigger := t\<rparr> \<notin> set evs"
    if "evs \<in> set (inserts (since w (snd (process_events events w))))"
      and "policyId (events ! j) = policyId (events ! i)"
    for evs j t
  proof
    assume "(events ! j)\<lparr>trigger := t\<rparr> \<in> set evs"
    from c [OF that(1) this] a that(2) show False by simp
  qed
  from a c d show ?thesis
    by (simp add: modified_process_events)
qed

theorem vanished_policy_is_not_reinserted_witness:
  "vanished (outcome_at (modify_results (quiet\<lparr>modify_results := [Inr (), Inl NoSuchPolicyError]\<rparr>)) 1)
   \<and> policyId ([hourly, hourly_again] ! 1)
       \<in> fst (settled [hourly, hourly_again] (quiet\<lparr>modify_results := [Inr (), Inl NoSuchPolicyError]\<rparr>))
   \<and> inserts (since (quiet\<lparr>modify_results := [Inr (), Inl NoSuchPolicyError]\<rparr>)
        (snd (process_events [hourly, hourly_again]
               (quiet\<lparr>modify_results := [Inr (), Inl NoSuchPolicyError]\<rparr>)))) = [[]]"
proof -
  let ?w = "quiet\<lparr>modify_results := [Inr (), Inl NoSuchPolicyError]\<rparr>"
  have h1: "1 < length [hourly, hourly_again]" by simp
  have h2: "vanished (outcome_at (modify_results ?w) 1)"
    by (simp add: vanished_def outcome_at_def)
  have dp: "fst (settled [hourly, hourly_again] ?w) = {''p1''}"
    by (simp add: settled_eq outcome_at_def vanished_def hourly_def hourly_again_def)
  have "rescheduled [hourly, hourly_again] ?w = Inr []"
    unfolding rescheduled_def dp by simp
  then have "inserts (since ?w (snd (process_events [hourly, hourly_again] ?w))) = [[]]"
    by (simp add: inserts_process_events)
  with h2 vanished_policy_is_not_reinserted [OF h1 h2] show ?thesis by blast
qed

text \<open>
  C5 (as amended).  When the modification of an event's group fails with
  \<^verbatim>\<open>CannotExecutePolicyError\<close>, the execution logs it and succeeds, and adds nothing to
  the set of deleted policy ids.  If no event of the batch with the same policy id fails
  with \<^verbatim>\<open>NoSuchScalingGroupError\<close> or \<^verbatim>\<open>NoSuchPolicyError\<close>, the policy id is not in
  that set when the batch has settled; and if moreover the loop of \<^verbatim>\<open>add_cron_events\<close>
  is not left by an exception of croniter, the list it built is handed to
  \<^verbatim>\<open>store.add_cron_events\<close> and an event with a cron entry is in it, unchanged but for its
  trigger, the next occurrence after a reading of the clock.  The loop is not left so when
  croniter raises on no cron entry of the batch.
\<close>

theorem cannot_execute_is_rescheduled:
  assumes "i < length events"
    and "outcome_at (modify_results w) i = Inl CannotExecutePolicyError"
  shows "fst (execute_events events ({}, log_msg ''Processing {num_events} events'' w)) ! i = Inr ()
       \<and> Log_msg (''Scheduler cannot execute policy '' @ policyId (events ! i))
            \<in> set (since w (snd (process_events events w)))
       \<and> (\<forall>ev dp w'. outcome_at (modify_results w') 0 = Inl CannotExecutePolicyError \<longrightarrow>
            fst (execute_event ev (dp, w')) = Inr () \<and> fst (snd (execute_event ev (dp, w'))) = dp)
       \<and> ((\<forall>j < length events. policyId (events ! j) = policyId (events ! i) \<longrightarrow>
              \<not> vanished (outcome_at (modify_results w) j)) \<longrightarrow>
            policyId (events ! i) \<notin> fst (settled events w)
            \<and> (\<forall>new. rescheduled events w = Inr new \<longrightarrow>
                 inserts (since w (snd (process_events events w))) = [new]
                 \<and> (truthy (cron (events ! i)) \<longrightarrow>
                      (\<exists>k t. fst (next_cron_occurrence (the (cron (events ! i)))
                                    (w\<lparr>ticks := ticks w + k\<rparr>)) = Inr t
                            \<and> (events ! i)\<lparr>trigger := t\<rparr> \<in> set new))))
       \<and> ((\<forall>e \<in> set events. truthy (cron e) \<longrightarrow> (\<forall>t. \<exists>t'. croniter w (the (cron e)) t = Inr t')) \<longrightarrow>
            (\<exists>new. rescheduled events w = Inr new))"
proof -
  from assms(1) have ne: "events \<noteq> []" by auto
  have a: "fst (execute_events events ({}, log_msg ''Processing {num_events} events'' w)) ! i = Inr ()"
    using assms(1) by (simp add: execute_events_eq)
  have "Log_msg (''Scheduler cannot execute policy '' @ policyId (events ! i))
          \<in> set (handled (policyId (events ! i)) (outcome_at (modify_results w) i))"
    by (simp add: assms(2))
  with handled_in_executed [OF assms(1), of "modify_results w"]
  have b: "Log_msg (''Scheduler cannot execute policy '' @ policyId (events ! i))
             \<in> set (since w (snd (process_events events w)))"
    by (auto simp: since_process_events [OF ne])
  have c: "fst (execute_event ev (dp, w')) = Inr () \<and> fst (snd (execute_event ev (dp, w'))) = dp"
    if "outcome_at (modify_results w') 0 = Inl CannotExecutePolicyError" for ev dp w'
    using that by (simp add: execute_event_eq vanished_def)
  have d: "policyId (events ! i) \<notin> fst (settled events w)
      \<and> (\<forall>new. rescheduled events w = Inr new \<longrightarrow>
           inserts (since w (snd (process_events events w))) = [new]
           \<and> (truthy (cron (events ! i)) \<longrightarrow>
                (\<exists>k t. fst (next_cron_occurrence (the (cron (events ! i)))
                              (w\<lparr>ticks := ticks w + k\<rparr>)) = Inr t
                      \<and> (events ! i)\<lparr>trigger := t\<rparr> \<in> set new)))"
    if sib: "\<forall>j < length events. policyId (events ! j) = policyId (events ! i) \<longrightarrow>
               \<not> vanished (outcome_at (modify_results w) j)"
  proof -
    from sib have nd: "policyId (events ! i) \<notin> fst (settled events w)"
      by (auto simp: fst_settled_iff)
    from assms(1) have mem: "events ! i \<in> set events" by simp
    have "inserts (since w (snd (process_events events w))) = [new]
        \<and> (truthy (cron (events ! i)) \<longrightarrow>
             (\<exists>k t. fst (next_cron_occurrence (the (cron (events ! i)))
                           (w\<lparr>ticks := ticks w + k\<rparr>)) = Inr t
                   \<and> (events ! i)\<lparr>trigger := t\<rparr> \<in> set new))"
      if r: "rescheduled events w = Inr new" for new
      using rescheduled_complete [OF r mem _ nd] ne r
      by (simp add: inserts_process_events)
    with nd show ?thesis by blast
  qed
  have e: "\<exists>new. rescheduled events w = Inr new" if "\<forall>e \<in> set events. truthy (cron e) \<longrightarrow> (\<forall>t. \<exists>t'. croniter w (the (cron e)) t = Inr t')"
    using rescheduled_total [OF that] .
  from a b c d e show ?thesis by blast
qed

theorem cannot_execute_is_rescheduled_witness:
  "outcome_at (modify_results (quiet\<lparr>modify_results := [Inl CannotExecutePolicyError]\<rparr>)) 0
     = Inl CannotExecutePolicyError
   \<and> since (quiet\<lparr>modify_results := [Inl CannotExecutePolicyError]\<rparr>)
        (snd (process_events [hourly] (quiet\<lparr>modify_results := [Inl CannotExecutePolicyError]\<rparr>)))
      = [Log_msg ''Processing {num_events} events'',
         Log_msg ''Scheduler executing policy p1'',
         Get_scaling_group ''t1'' ''g1'',
         Modify_state ''t1'' ''g1'' ''p1'' ''v1'',
         Log_msg ''Scheduler cannot execute policy p1'',
         Log_msg ''Adding {new_cron_events} cron events'',
         Add_cron_events [hourly\<lparr>trigger := 160\<rparr>]]
   \<and> fst (execute_events [hourly]
        ({}, log_msg ''Processing {num_events} events''
               (quiet\<lparr>modify_results := [Inl CannotExecutePolicyError]\<rparr>))) ! 0 = Inr ()"
proof -
  let ?w = "quiet\<lparr>modify_results := [Inl CannotExecutePolicyError]\<rparr>"
  have h1: "0 < length [hourly]" by simp
  have h2: "outcome_at (modify_results ?w) 0 = Inl CannotExecutePolicyError"
    by (simp add: outcome_at_def)
  have dp: "fst (settled [hourly] ?w) = {}"
    by (simp add: settled_eq outcome_at_def vanished_def)
  have "rescheduled [hourly] ?w = Inr [hourly\<lparr>trigger := 160\<rparr>]"
    unfolding rescheduled_def dp
    by (simp add: truthy_def next_cron_occurrence_eq settled_eq)
  then have "since ?w (snd (process_events [hourly] ?w))
      = [Log_msg ''Processing {num_events} events'',
         Log_msg ''Scheduler executing policy p1'',
         Get_scaling_group ''t1'' ''g1'',
         Modify_state ''t1'' ''g1'' ''p1'' ''v1'',
         Log_msg ''Scheduler cannot execute policy p1'',
         Log_msg ''Adding {new_cron_events} cron events'',
         Add_cron_events [hourly\<lparr>trigger := 160\<rparr>]]"
    by (simp add: since_process_events outcome_at_def)
  with h2 cannot_execute_is_rescheduled [OF h1 h2] show ?thesis by simp
qed

text \<open>
  The claim as it is written fails twice.  Of two events of one policy, the first is
  refused with \<^verbatim>\<open>CannotExecutePolicyError\<close> and the second finds the policy gone: the
  policy id is in the set of deleted policy ids and the first event, which has a cron
  entry, is not handed to \<^verbatim>\<open>store.add_cron_events\<close>.  And when a refused event with a
  cron entry shares its batch with an event whose cron entry croniter cannot read,
  \<^verbatim>\<open>add_cron_events\<close> is left by the exception and the store is not called at all.
\<close>

theorem cannot_execute_counterexample:
  "outcome_at (modify_results
       (quiet\<lparr>modify_results := [Inl CannotExecutePolicyError, Inl NoSuchPolicyError]\<rparr>)) 0
     = Inl CannotExecutePolicyError
   \<and> truthy (cron hourly)
   \<and> policyId hourly \<in> fst (settled [hourly, hourly_again]
        (quiet\<lparr>modify_results := [Inl CannotExecutePolicyError, Inl NoSuchPolicyError]\<rparr>))
   \<and> inserts (since (quiet\<lparr>modify_results := [Inl CannotExecutePolicyError, Inl NoSuchPolicyError]\<rparr>)
        (snd (process_events [hourly, hourly_again]
               (quiet\<lparr>modify_results := [Inl CannotExecutePolicyError, Inl NoSuchPolicyError]\<rparr>))))
      = [[]]
   \<and> outcome_at (modify_results (quiet\<lparr>modify_results := [Inl CannotExecutePolicyError]\<rparr>)) 0
     = Inl CannotExecutePolicyError
   \<and> fst (settled [hourly, unreadable] (quiet\<lparr>modify_results := [Inl CannotExecutePolicyError]\<rparr>))
     = {}
   \<and> inserts (since (quiet\<lparr>modify_results := [Inl CannotExecutePolicyError]\<rparr>)
        (snd (process_events [hourly, unreadable]
               (quiet\<lparr>modify_results := [Inl CannotExecutePolicyError]\<rparr>))))
      = []
   \<and> fst (process_events [hourly, unreadable]
             (quiet\<lparr>modify_results := [Inl CannotExecutePolicyError]\<rparr>))
      = Inl (OtherError ''bad cron'')"
proof -
  let ?w = "quiet\<lparr>modify_results := [Inl CannotExecutePolicyError, Inl NoSuchPolicyError]\<rparr>"
  let ?v = "quiet\<lparr>modify_results := [Inl CannotExecutePolicyError]\<rparr>"
  have dp: "fst (settled [hourly, hourly_again] ?w) = {''p1''}"
    by (simp add: settled_eq outcome_at_def vanished_def)
  have "rescheduled [hourly, hourly_again] ?w = Inr []"
    unfolding rescheduled_def dp by simp
  then have a: "inserts (since ?w (snd (process_events [hourly, hourly_again] ?w))) = [[]]"
    by (simp add: inserts_process_events)
  have b: "policyId hourly \<in> fst (settled [hourly, hourly_again] ?w)"
    unfolding dp by simp
  have dv: "fst (settled [hourly, unreadable] ?v) = {}"
    by (simp add: settled_eq outcome_at_def vanished_def)
  have r: "rescheduled [hourly, unreadable] ?v = Inl (OtherError ''bad cron'')"
    unfolding rescheduled_def dv
    by (simp add: truthy_def next_cron_occurrence_eq settled_eq)
  then have c: "inserts (since ?v (snd (process_events [hourly, unreadable] ?v))) = []"
    by (simp add: inserts_process_events)
  have d: "fst (process_events [hourly, unreadable] ?v) = Inl (OtherError ''bad cron'')"
    by (simp add: fst_process_events r)
  from a b c d dv show ?thesis
    by (simp add: outcome_at_def truthy_def)
qed

text \<open>
  C6.  When the modification of an event's group fails with any other error, the
  execution logs the failure and succeeds all the same.  No execution ever fails; so
  every event of the batch is executed and has an outcome, the gathered Deferred of the
  batch fires with the list of the outcomes, and \<^verbatim>\<open>add_cron_events\<close> is run on the batch
  and the set of deleted policy ids as they are when the batch has settled: what
  \<^verbatim>\<open>process_events\<close> leaves and returns is what \<^verbatim>\<open>add_cron_events\<close> leaves and
  returns, but for the number of events in place of its result.  The list it builds is
  handed to \<^verbatim>\<open>store.add_cron_events\<close> unless croniter raises, which it does on no
  batch whose cron entries it can all read.
\<close>

theorem other_error_is_absorbed:
  assumes "i < length events"
    and "outcome_at (modify_results w) i = Inl f"
    and "f \<noteq> CannotExecutePolicyError" and "f \<noteq> NoSuchScalingGroupError"
    and "f \<noteq> NoSuchPolicyError"
  shows "Log_err (Some f) (''Scheduler failed to execute policy '' @ policyId (events ! i))
            \<in> set (since w (snd (process_events events w)))
       \<and> (\<forall>ev s. fst (execute_event ev s) = Inr ())
       \<and> fst (execute_events events ({}, log_msg ''Processing {num_events} events'' w))
           = replicate (length events) (Inr ())
       \<and> gatherResults (fst (execute_events events ({}, log_msg ''Processing {num_events} events'' w)))
           = Inr (replicate (length events) ())
       \<and> modified (since w (snd (process_events events w))) = map executes events
       \<and> process_events events w
           = addCallback (\<lambda>_ w'. (Inr (int (length events)), w'))
               (add_cron_events events (fst (settled events w)) (snd (settled events w)))
       \<and> (\<forall>new. rescheduled events w = Inr new \<longrightarrow>
            inserts (since w (snd (process_events events w))) = [new])
       \<and> ((\<forall>e \<in> set events. truthy (cron e) \<longrightarrow> (\<forall>t. \<exists>t'. croniter w (the (cron e)) t = Inr t')) \<longrightarrow>
            (\<exists>new. rescheduled events w = Inr new))"
proof -
  from assms(1) have ne: "events \<noteq> []" by auto
  have "Log_err (Some f) (''Scheduler failed to execute policy '' @ policyId (events ! i))
          \<in> set (handled (policyId (events ! i)) (outcome_at (modify_results w) i))"
    using assms by simp
  with handled_in_executed [OF assms(1), of "modify_results w"]
  have a: "Log_err (Some f) (''Scheduler failed to execute policy '' @ policyId (events ! i))
             \<in> set (since w (snd (process_events events w)))"
    by (auto simp: since_process_events [OF ne])
  have b: "fst (execute_event ev s) = Inr ()" for ev s
    by (cases s) (simp add: execute_event_eq)
  have c: "process_events events w
      = addCallback (\<lambda>_ w'. (Inr (int (length events)), w'))
          (add_cron_events events (fst (settled events w)) (snd (settled events w)))"
    by (cases "add_cron_events events (fst (settled events w)) (snd (settled events w))")
      (simp add: process_events_eq [OF ne] addCallback_def split: sum.splits)
  have d: "\<exists>new. rescheduled events w = Inr new" if "\<forall>e \<in> set events. truthy (cron e) \<longrightarrow> (\<forall>t. \<exists>t'. croniter w (the (cron e)) t = Inr t')"
    using rescheduled_total [OF that] .
  have e: "fst (execute_events events ({}, log_msg ''Processing {num_events} events'' w))
      = replicate (length events) (Inr ())"
    by (simp add: execute_events_eq)
  have g: "gatherResults (fst (execute_events events ({}, log_msg ''Processing {num_events} events'' w)))
      = Inr (replicate (length events) ())"
    by (simp add: execute_events_eq gatherResults_replicate)
  have m: "modified (since w (snd (process_events events w))) = map executes events"
    by (rule modified_process_events)
  have n: "\<forall>new. rescheduled events w = Inr new \<longrightarrow>
      inserts (since w (snd (process_events events w))) = [new]"
    using ne by (simp add: inserts_process_events)
  from a b c d e g m n show ?thesis by blast
qed

theorem other_error_is_absorbed_witness:
  "outcome_at (modify_results (quiet\<lparr>modify_results := [Inl (OtherError ''boom''), Inr ()]\<rparr>)) 0
     = Inl (OtherError ''boom'')
   \<and> since (quiet\<lparr>modify_results := [Inl (OtherError ''boom''), Inr ()]\<rparr>)
        (snd (process_events [once, hourly] (quiet\<lparr>modify_results := [Inl (OtherError ''boom''), Inr ()]\<rparr>)))
      = [Log_msg ''Processing {num_events} events'',
         Log_msg ''Scheduler executing policy p2'',
         Get_scaling_group ''t1'' ''g1'',
         Modify_state ''t1'' ''g1'' ''p2'' ''v1'',
         Log_err (Some (OtherError ''boom'')) ''Scheduler failed to execute policy p2'',
         Log_msg ''Scheduler executing policy p1'',
         Get_scaling_group ''t1'' ''g1'',
         Modify_state ''t1'' ''g1'' ''p1'' ''v1'',
         Log_msg ''Adding {new_cron_events} cron events'',
         Add_cron_events [hourly\<lparr>trigger := 160\<rparr>]]
   \<and> fst (process_events [once, hourly] (quiet\<lparr>modify_results := [Inl (OtherError ''boom''), Inr ()]\<rparr>))
      = Inr 2"
proof -
  let ?w = "quiet\<lparr>modify_results := [Inl (OtherError ''boom''), Inr ()]\<rparr>"
  have h1: "0 < length [once, hourly]" by simp
  have h2: "outcome_at (modify_results ?w) 0 = Inl (OtherError ''boom'')"
    by (simp add: outcome_at_def)
  have dp: "fst (settled [once, hourly] ?w) = {}"
    by (simp add: settled_eq outcome_at_def vanished_def)
  have r: "rescheduled [once, hourly] ?w = Inr [hourly\<lparr>trigger := 160\<rparr>]"
    unfolding rescheduled_def dp
    by (simp add: truthy_def next_cron_occurrence_eq settled_eq)
  then have s: "since ?w (snd (process_events [once, hourly] ?w))
      = [Log_msg ''Processing {num_events} events'',
         Log_msg ''Scheduler executing policy p2'',
         Get_scaling_group ''t1'' ''g1'',
         Modify_state ''t1'' ''g1'' ''p2'' ''v1'',
         Log_err (Some (OtherError ''boom'')) ''Scheduler failed to execute policy p2'',
         Log_msg ''Scheduler executing policy p1'',
         Get_scaling_group ''t1'' ''g1'',
         Modify_state ''t1'' ''g1'' ''p1'' ''v1'',
         Log_msg ''Adding {new_cron_events} cron events'',
         Add_cron_events [hourly\<lparr>trigger := 160\<rparr>]]"
    by (simp add: since_process_events outcome_at_def)
  have t: "fst (process_events [once, hourly] ?w) = Inr 2"
    by (simp add: fst_process_events r)
  from other_error_is_absorbed [OF h1 h2] h2 s t show ?thesis by simp
qed

text \<open>
  C7.  Every event in a list handed to \<^verbatim>\<open>store.add_cron_events\<close>, by \<^verbatim>\<open>add_cron_events\<close>
  alone or within \<^verbatim>\<open>process_events\<close>, has a cron entry and comes from an event of the
  batch that has one: an event without a cron entry is not recreated.  On an empty batch
  neither function calls the store, nor does anything else.
\<close>

theorem one_shot_event_is_not_recreated:
  "(\<forall>evs \<in> set (inserts (since w (snd (add_cron_events events dp w)))).
      \<forall>e \<in> set evs. truthy (cron e) \<and>
        (\<exists>e0 \<in> set events. truthy (cron e0) \<and> (\<exists>t. e = e0\<lparr>trigger := t\<rparr>)))
   \<and> (\<forall>evs \<in> set (inserts (since w (snd (process_events events w)))).
      \<forall>e \<in> set evs. truthy (cron e) \<and>
        (\<exists>e0 \<in> set events. truthy (cron e0) \<and> (\<exists>t. e = e0\<lparr>trigger := t\<rparr>)))
   \<and> add_cron_events [] dp w = (Inr (), w)
   \<and> process_events [] w = (Inr 0, w)"
proof -
  have a: "truthy (cron e) \<and> (\<exists>e0 \<in> set events. truthy (cron e0) \<and> (\<exists>t. e = e0\<lparr>trigger := t\<rparr>))"
    if "evs \<in> set (inserts (since w (snd (add_cron_events events dp w))))" and "e \<in> set evs"
    for evs e
  proof -
    from new_cron_events_sound [OF in_inserts_add_cron_events [OF that(1)] that(2)]
    obtain e0 where e0: "e0 \<in> set events" "truthy (cron e0)" "e = e0\<lparr>trigger := trigger e\<rparr>"
      by blast
    from same_but_trigger [OF e0(3)] e0(2) have "truthy (cron e)" by simp
    with e0 show ?thesis by blast
  qed
  have b: "truthy (cron e) \<and> (\<exists>e0 \<in> set events. truthy (cron e0) \<and> (\<exists>t. e = e0\<lparr>trigger := t\<rparr>))"
    if "evs \<in> set (inserts (since w (snd (process_events events w))))" and "e \<in> set evs"
    for evs e
  proof -
    from rescheduled_sound [OF in_inserts_process_events [OF that(1)] that(2)]
    obtain e0 where e0: "e0 \<in> set events" "truthy (cron e0)" "e = e0\<lparr>trigger := trigger e\<rparr>"
      by blast
    from same_but_trigger [OF e0(3)] e0(2) have "truthy (cron e)" by simp
    with e0 show ?thesis by blast
  qed
  from a b show ?thesis
    by (simp add: add_cron_events_def process_events_def)
qed

theorem one_shot_event_is_not_recreated_witness:
  "inserts (since quiet (snd (process_events [once, hourly] quiet))) = [[hourly\<lparr>trigger := 160\<rparr>]]
   \<and> truthy (cron (hourly\<lparr>trigger := 160\<rparr>))
   \<and> \<not> truthy (cron once)
   \<and> inserts (since quiet (snd (process_events [] quiet))) = []"
proof -
  have dp: "fst (settled [once, hourly] quiet) = {}"
    by (simp add: settled_eq outcome_at_def vanished_def)
  have r: "rescheduled [once, hourly] quiet = Inr [hourly\<lparr>trigger := 160\<rparr>]"
    unfolding rescheduled_def dp
    by (simp add: truthy_def next_cron_occurrence_eq settled_eq)
  then have i: "inserts (since quiet (snd (process_events [once, hourly] quiet)))
      = [[hourly\<lparr>trigger := 160\<rparr>]]"
    by (simp add: inserts_process_events)
  have "\<forall>e \<in> set [hourly\<lparr>trigger := 160\<rparr>]. truthy (cron e)"
    using one_shot_event_is_not_recreated [of quiet "[once, hourly]" "{}"] i by simp
  moreover have "\<not> truthy (cron once)"
    by (simp add: once_def truthy_def)
  moreover have "inserts (since quiet (snd (process_events [] quiet))) = []"
    using one_shot_event_is_not_recreated [of quiet "[]" "{}"] by (simp add: since_self)
  ultimately show ?thesis using i by simp
qed

text \<open>
  C8.  Every event in a list handed to \<^verbatim>\<open>store.add_cron_events\<close> is an event of the
  batch with a new trigger: tenant, group, policy, cron entry and version are those of the
  fetched event, and the trigger is the next occurrence of its cron entry after a reading
  of the clock taken while the batch is rescheduled.
\<close>

theorem rescheduled_event_differs_in_trigger_only:
  "(\<forall>evs \<in> set (inserts (since w (snd (add_cron_events events dp w)))
               @ inserts (since w (snd (process_events events w)))).
      \<forall>e \<in> set evs. \<exists>e0 \<in> set events. \<exists>k.
        tenantId e = tenantId e0 \<and> groupId e = groupId e0 \<and> policyId e = policyId e0
        \<and> cron e = cron e0 \<and> version e = version e0
        \<and> fst (next_cron_occurrence (the (cron e0)) (w\<lparr>ticks := ticks w + k\<rparr>))
            = Inr (trigger e)
        \<and> e = e0\<lparr>trigger := trigger e\<rparr>)"
proof (intro ballI)
  fix evs e
  assume evs: "evs \<in> set (inserts (since w (snd (add_cron_events events dp w)))
                 @ inserts (since w (snd (process_events events w))))"
    and e: "e \<in> set evs"
  from evs consider "evs \<in> set (inserts (since w (snd (add_cron_events events dp w))))"
    | "evs \<in> set (inserts (since w (snd (process_events events w))))"
    by auto
  then obtain e0 k where e0: "e0 \<in> set events"
    "fst (next_cron_occurrence (the (cron e0)) (w\<lparr>ticks := ticks w + k\<rparr>)) = Inr (trigger e)"
    "e = e0\<lparr>trigger := trigger e\<rparr>"
  proof cases
    case 1
    from new_cron_events_sound [OF in_inserts_add_cron_events [OF 1] e] that show ?thesis
      by blast
  next
    case 2
    from rescheduled_sound [OF in_inserts_process_events [OF 2] e] that show ?thesis
      by blast
  qed
  from same_but_trigger [OF e0(3)] e0
  show "\<exists>e0 \<in> set events. \<exists>k.
        tenantId e = tenantId e0 \<and> groupId e = groupId e0 \<and> policyId e = policyId e0
        \<and> cron e = cron e0 \<and> version e = version e0
        \<and> fst (next_cron_occurrence (the (cron e0)) (w\<lparr>ticks := ticks w + k\<rparr>))
            = Inr (trigger e)
        \<and> e = e0\<lparr>trigger := trigger e\<rparr>"
    by blast
qed

theorem rescheduled_event_differs_in_trigger_only_witness:
  "inserts (since quiet (snd (add_cron_events [hourly] {} quiet))) = [[hourly\<lparr>trigger := 160\<rparr>]]
   \<and> (\<exists>k. fst (next_cron_occurrence (the (cron hourly)) (quiet\<lparr>ticks := ticks quiet + k\<rparr>))
           = Inr (trigger (hourly\<lparr>trigger := 160\<rparr>)))"
proof -
  have i: "inserts (since quiet (snd (add_cron_events [hourly] {} quiet)))
      = [[hourly\<lparr>trigger := 160\<rparr>]]"
    by (simp add: inserts_add_cron_events truthy_def next_cron_occurrence_eq)
  then have "[hourly\<lparr>trigger := 160\<rparr>]
      \<in> set (inserts (since quiet (snd (add_cron_events [hourly] {} quiet)))
             @ inserts (since quiet (snd (process_events [hourly] quiet))))"
    by simp
  from rescheduled_event_differs_in_trigger_only [rule_format, OF this, of "hourly\<lparr>trigger := 160\<rparr>"]
  have "\<exists>k. fst (next_cron_occurrence (the (cron hourly)) (quiet\<lparr>ticks := ticks quiet + k\<rparr>))
           = Inr (trigger (hourly\<lparr>trigger := 160\<rparr>))"
    by auto
  with i show ?thesis by simp
qed

text \<open>
  C10.  On a batch that is not empty, \<^verbatim>\<open>store.add_cron_events\<close> is called once, also
  when no event of the batch is to be rescheduled, every one being without a cron entry
  or of a deleted policy: the call is then made with the empty list.
\<close>

theorem empty_reschedule_is_still_inserted:
  assumes "events \<noteq> []"
  shows "((\<forall>e \<in> set events. \<not> truthy (cron e) \<or> policyId e \<in> fst (settled events w)) \<longrightarrow>
            inserts (since w (snd (process_events events w))) = [[]])
       \<and> ((\<forall>e \<in> set events. \<not> truthy (cron e) \<or> policyId e \<in> dp) \<longrightarrow>
            inserts (since w (snd (add_cron_events events dp w))) = [[]])"
  using assms
  by (simp add: inserts_process_events inserts_add_cron_events rescheduled_def
      new_cron_events_none del: new_cron_events.simps)

theorem empty_reschedule_is_still_inserted_witness:
  "[once] \<noteq> []
   \<and> \<not> truthy (cron once)
   \<and> since quiet (snd (process_events [once] quiet))
      = [Log_msg ''Processing {num_events} events'',
         Log_msg ''Scheduler executing policy p2'',
         Get_scaling_group ''t1'' ''g1'',
         Modify_state ''t1'' ''g1'' ''p2'' ''v1'',
         Log_msg ''Adding {new_cron_events} cron events'',
         Add_cron_events []]
   \<and> inserts (since quiet (snd (process_events [once] quiet))) = [[]]"
proof -
  have h: "[once] \<noteq> []" by simp
  have c: "\<not> truthy (cron once)" by (simp add: once_def truthy_def)
  then have "\<forall>e \<in> set [once]. \<not> truthy (cron e) \<or> policyId e \<in> fst (settled [once] quiet)"
    by simp
  with empty_reschedule_is_still_inserted [OF h, of quiet "{}"]
  have i: "inserts (since quiet (snd (process_events [once] quiet))) = [[]]"
    by blast
  have "rescheduled [once] quiet = Inr []"
    using c by (simp add: rescheduled_def)
  then have "since quiet (snd (process_events [once] quiet))
      = [Log_msg ''Processing {num_events} events'',
         Log_msg ''Scheduler executing policy p2'',
         Get_scaling_group ''t1'' ''g1'',
         Modify_state ''t1'' ''g1'' ''p2'' ''v1'',
         Log_msg ''Adding {new_cron_events} cron events'',
         Add_cron_events []]"
    by (simp add: since_process_events outcome_at_def)
  with c i show ?thesis by simp
qed

subsection \<open>The drain loop\<close>

lemma fetch_and_delete_eq:
  "fetch_and_delete b now n w =
     (case fetch_results w of [] \<Rightarrow> Inr [] | r # _ \<Rightarrow> r,
      w\<lparr>trace := trace w @ [Fetch_and_delete b now n], fetch_results := tl (fetch_results w)\<rparr>)"
  by (simp add: fetch_and_delete_def emit_def Let_def split: list.splits)

lemma do_check_succeeds:
  assumes "do_check b now n w = Some r"
  shows "fst r = Inr ()"
proof (rule do_check.raw_induct [where P = "\<lambda>b now n w r. fst r = Inr ()", rotated 1, OF assms])
  fix f b now n w r
  assume "(case addCallback process_events (fetch_and_delete b now n w) of
      (Inl e, w1) \<Rightarrow> Some (log_err (Some e) [] w1)
      | (Inr num_events, w1) \<Rightarrow>
          if num_events = n
          then Option.bind (f b now n w1) (\<lambda>r. Some (addErrback (\<lambda>e. log_err (Some e) []) r))
          else Some (Inr (), w1)) = Some r"
  then show "fst r = Inr ()"
    by (auto simp: addErrback_def log_err_def split: prod.splits sum.splits if_splits
        Option.bind_splits)
qed

lemma do_check_errback:
  "Option.bind (do_check b now n w) (\<lambda>r. Some (addErrback (\<lambda>e. log_err (Some e) []) r))
     = do_check b now n w"
proof (cases "do_check b now n w")
  case None
  then show ?thesis by simp
next
  case (Some r)
  from do_check_succeeds [OF this] Some show ?thesis
    by (cases r) (simp add: addErrback_def)
qed

text \<open>One round of the loop: the fetch, the batch, and whether it polls again.\<close>

lemma do_check_step:
  "do_check b now n w =
     (case fst (fetch_and_delete b now n w) of
        Inl f \<Rightarrow> Some (Inr (), emit (Log_err (Some f) []) (snd (fetch_and_delete b now n w)))
      | Inr es \<Rightarrow>
          (case fst (process_events es (snd (fetch_and_delete b now n w))) of
             Inl f \<Rightarrow> Some (Inr (), emit (Log_err (Some f) [])
                              (snd (process_events es (snd (fetch_and_delete b now n w)))))
           | Inr m \<Rightarrow>
               if m = n
               then do_check b now n (snd (process_events es (snd (fetch_and_delete b now n w))))
               else Some (Inr (), snd (process_events es (snd (fetch_and_delete b now n w))))))"
  by (subst do_check.simps)
    (simp add: addCallback_def do_check_errback log_err_def split: prod.splits sum.splits)

lemma process_events_extends:
  "\<exists>xs. trace (snd (process_events es w)) = trace w @ xs \<and> fetched xs = []
        \<and> modified xs = map executes es"
proof (cases "es = []")
  case True
  then show ?thesis by (simp add: process_events_def)
next
  case False
  have "fetched (Log_msg ''Processing {num_events} events'' # executed es (modify_results w)
          @ inserting (rescheduled es w)) = []"
    by (simp add: fetched_append fetched_executed fetched_inserting)
  moreover
  have "modified (Log_msg ''Processing {num_events} events'' # executed es (modify_results w)
          @ inserting (rescheduled es w))
        = map executes es"
    by (simp add: modified_append modified_executed modified_inserting)
  ultimately show ?thesis
    using trace_process_events [OF False, of w] by blast
qed

lemma fst_process_events_Inr:
  "fst (process_events es w) = Inr m \<Longrightarrow> m = int (length es)"
  by (auto simp: fst_process_events split: if_splits list.splits sum.splits)

lemma fst_process_events_Inl:
  "fst (process_events es w) = Inl f \<Longrightarrow>
     Inl f \<in> set (insert_results w) \<or> rescheduled es w = Inl f"
  by (auto simp: fst_process_events split: if_splits list.splits sum.splits)

lemma processing_succeeds:
  assumes "\<forall>r \<in> set (insert_results w). r = Inr ()"
    and "\<forall>e \<in> set es. truthy (cron e) \<longrightarrow> (\<forall>t. \<exists>t'. croniter w (the (cron e)) t = Inr t')"
  shows "fst (process_events es w) \<noteq> Inl f"
proof
  assume "fst (process_events es w) = Inl f"
  from fst_process_events_Inl [OF this] rescheduled_total [OF assms(2)] assms(1)
  show False by auto
qed

lemma drain:
  assumes n: "0 < n"
  shows "\<exists>w' xs k. do_check b now n w = Some (Inr (), w') \<and> trace w' = trace w @ xs \<and> 1 \<le> k
      \<and> k \<le> Suc (length (takeWhile (full n) (fetch_results w)))
      \<and> ((\<forall>r \<in> set (insert_results w). r = Inr ()) \<and> (\<forall>e \<in> set (returned (fetch_results w)). truthy (cron e) \<longrightarrow>
                (\<forall>t. \<exists>t'. croniter w (the (cron e)) t = Inr t')) \<longrightarrow>
            k = Suc (length (takeWhile (full n) (fetch_results w))))
      \<and> fetched xs = replicate k (b, now, n)
      \<and> modified xs = map executes (returned (take k (fetch_results w)))"
proof (induction "fetch_results w" arbitrary: w)
  case Nil
  then have fr: "fetch_results w = []" by simp
  let ?w1 = "snd (fetch_and_delete b now n w)"
  have "do_check b now n w = Some (Inr (), ?w1)"
    using n by (subst do_check_step) (simp add: fetch_and_delete_eq fr process_events_def)
  moreover have "trace ?w1 = trace w @ [Fetch_and_delete b now n]"
    by (simp add: fetch_and_delete_eq)
  ultimately show ?case
    by (intro exI [of _ ?w1] exI [of _ "[Fetch_and_delete b now n]"] exI [of _ 1])
      (simp add: fr)
next
  case (Cons r rs)
  then have fr: "fetch_results w = r # rs" by simp
  let ?w1 = "snd (fetch_and_delete b now n w)"
  have f1: "fst (fetch_and_delete b now n w) = r"
    by (simp add: fetch_and_delete_eq fr)
  have t1: "trace ?w1 = trace w @ [Fetch_and_delete b now n]"
    by (simp add: fetch_and_delete_eq)
  have i1: "insert_results ?w1 = insert_results w"
    by (simp add: fetch_and_delete_eq)
  have r1: "fetch_results ?w1 = rs"
    by (simp add: fetch_and_delete_eq fr)
  have c1: "croniter ?w1 = croniter w"
    by (simp add: fetch_and_delete_eq)
  show ?case
  proof (cases r)
    case (Inl f)
    let ?w' = "emit (Log_err (Some f) []) ?w1"
    have "do_check b now n w = Some (Inr (), ?w')"
      by (subst do_check_step) (simp add: f1 Inl)
    moreover have "trace ?w' = trace w @ [Fetch_and_delete b now n, Log_err (Some f) []]"
      by (simp add: emit_def t1)
    ultimately show ?thesis
      by (intro exI [of _ ?w'] exI [of _ "[Fetch_and_delete b now n, Log_err (Some f) []]"]
          exI [of _ 1])
        (simp add: fr Inl full_def)
  next
    case (Inr es)
    let ?w2 = "snd (process_events es ?w1)"
    obtain xp where xp: "trace ?w2 = trace ?w1 @ xp" "fetched xp = []"
      "modified xp = map executes es"
      using process_events_extends [of es ?w1] by blast
    show ?thesis
    proof (cases "fst (process_events es ?w1)")
      case (Inl f)
      let ?w' = "emit (Log_err (Some f) []) ?w2"
      have "do_check b now n w = Some (Inr (), ?w')"
        by (subst do_check_step) (simp add: f1 Inr Inl)
      moreover have "trace ?w' = trace w @ Fetch_and_delete b now n # xp @ [Log_err (Some f) []]"
        by (simp add: emit_def t1 xp)
      moreover have "fetched (Fetch_and_delete b now n # xp @ [Log_err (Some f) []])
          = replicate 1 (b, now, n)"
        by (simp add: fetched_append xp)
      moreover have "modified (Fetch_and_delete b now n # xp @ [Log_err (Some f) []])
          = map executes (returned (take 1 (fetch_results w)))"
        by (simp add: modified_append xp fr Inr)
      moreover have "\<not> ((\<forall>r \<in> set (insert_results w). r = Inr ())
          \<and> (\<forall>e \<in> set (returned (fetch_results w)). truthy (cron e) \<longrightarrow>
                (\<forall>t. \<exists>t'. croniter w (the (cron e)) t = Inr t')))"
      proof
        assume h: "(\<forall>r \<in> set (insert_results w). r = Inr ())
          \<and> (\<forall>e \<in> set (returned (fetch_results w)). truthy (cron e) \<longrightarrow>
                (\<forall>t. \<exists>t'. croniter w (the (cron e)) t = Inr t'))"
        then have "\<forall>r \<in> set (insert_results ?w1). r = Inr ()"
          and "\<forall>e \<in> set es. truthy (cron e) \<longrightarrow> (\<forall>t. \<exists>t'. croniter ?w1 (the (cron e)) t = Inr t')"
          by (simp_all add: i1 c1 fr Inr)
        from processing_succeeds [OF this, of f] Inl show False by simp
      qed
      ultimately show ?thesis
        by (intro exI [of _ ?w'] exI [of _ "Fetch_and_delete b now n # xp @ [Log_err (Some f) []]"]
            exI [of _ 1])
          auto
    next
      case m: (Inr m)
      from fst_process_events_Inr [OF m] have m_eq: "m = int (length es)" .
      show ?thesis
      proof (cases "m = n")
        case False
        have "do_check b now n w = Some (Inr (), ?w2)"
          using False by (subst do_check_step) (simp add: f1 Inr m)
        moreover have "trace ?w2 = trace w @ Fetch_and_delete b now n # xp"
          by (simp add: t1 xp)
        moreover have "fetched (Fetch_and_delete b now n # xp) = replicate 1 (b, now, n)"
          by (simp add: xp)
        moreover have "modified (Fetch_and_delete b now n # xp)
            = map executes (returned (take 1 (fetch_results w)))"
          by (simp add: xp fr Inr)
        moreover have "takeWhile (full n) (fetch_results w) = []"
          using False m_eq by (simp add: fr Inr full_def)
        ultimately show ?thesis
          by (intro exI [of _ ?w2] exI [of _ "Fetch_and_delete b now n # xp"] exI [of _ 1])
            simp
      next
        case True
        have again: "do_check b now n w = do_check b now n ?w2"
          using True by (subst do_check_step) (simp add: f1 Inr m)
        have r2: "rs = fetch_results ?w2"
          by (simp add: fetch_results_process_events r1)
        from Cons.hyps(1) [OF r2] obtain w' xs k where
          k: "do_check b now n ?w2 = Some (Inr (), w')" "trace w' = trace ?w2 @ xs" "1 \<le> k"
            "k \<le> Suc (length (takeWhile (full n) (fetch_results ?w2)))"
            "(\<forall>r \<in> set (insert_results ?w2). r = Inr ())
               \<and> (\<forall>e \<in> set (returned (fetch_results ?w2)). truthy (cron e) \<longrightarrow>
                (\<forall>t. \<exists>t'. croniter ?w2 (the (cron e)) t = Inr t')) \<longrightarrow>
               k = Suc (length (takeWhile (full n) (fetch_results ?w2)))"
            "fetched xs = replicate k (b, now, n)"
            "modified xs = map executes (returned (take k (fetch_results ?w2)))"
          by blast
        have tw: "takeWhile (full n) (fetch_results w) = r # takeWhile (full n) rs"
          using True m_eq by (simp add: fr Inr full_def)
        have ins: "set (insert_results ?w2) \<subseteq> set (insert_results w)"
          using set_insert_results_process_events [of es ?w1] by (simp add: i1)
        have c2: "croniter ?w2 = croniter w"
          by (simp add: croniter_process_events c1)
        have "do_check b now n w = Some (Inr (), w')"
          using again k(1) by simp
        moreover have "trace w' = trace w @ Fetch_and_delete b now n # xp @ xs"
          by (simp add: k(2) xp t1)
        moreover have "Suc k \<le> Suc (length (takeWhile (full n) (fetch_results w)))"
          using k(4) by (simp add: tw r2 [symmetric])
        moreover have "(\<forall>r \<in> set (insert_results w). r = Inr ())
            \<and> (\<forall>e \<in> set (returned (fetch_results w)). truthy (cron e) \<longrightarrow>
                  (\<forall>t. \<exists>t'. croniter w (the (cron e)) t = Inr t')) \<longrightarrow>
            Suc k = Suc (length (takeWhile (full n) (fetch_results w)))"
        proof
          assume h: "(\<forall>r \<in> set (insert_results w). r = Inr ())
            \<and> (\<forall>e \<in> set (returned (fetch_results w)). truthy (cron e) \<longrightarrow>
                  (\<forall>t. \<exists>t'. croniter w (the (cron e)) t = Inr t'))"
          have "set (returned (fetch_results ?w2)) \<subseteq> set (returned (fetch_results w))"
            by (simp add: r2 [symmetric] fr Inr)
          with h ins have "(\<forall>r \<in> set (insert_results ?w2). r = Inr ())
               \<and> (\<forall>e \<in> set (returned (fetch_results ?w2)). truthy (cron e) \<longrightarrow>
                (\<forall>t. \<exists>t'. croniter ?w2 (the (cron e)) t = Inr t'))"
            unfolding c2 by blast
          with k(5) have "k = Suc (length (takeWhile (full n) (fetch_results ?w2)))"
            by blast
          then show "Suc k = Suc (length (takeWhile (full n) (fetch_results w)))"
            by (simp add: tw r2 [symmetric])
        qed
        moreover have "fetched (Fetch_and_delete b now n # xp @ xs) = replicate (Suc k) (b, now, n)"
          by (simp add: fetched_append xp k(6))
        moreover have "modified (Fetch_and_delete b now n # xp @ xs)
            = map executes (returned (take (Suc k) (fetch_results w)))"
          by (simp add: modified_append xp k(7) fr Inr r2 [symmetric])
        ultimately show ?thesis
          by (intro exI [of _ w'] exI [of _ "Fetch_and_delete b now n # xp @ xs"]
              exI [of _ "Suc k"])
            simp
      qed
    qed
  qed
qed

lemma do_check_zero_diverges:
  assumes "fetch_results w = []"
  shows "do_check b now 0 w = None"
proof (rule ccontr)
  assume "do_check b now 0 w \<noteq> None"
  then obtain r where r: "do_check b now 0 w = Some r" by blast
  have "\<not> (0 = (0::int) \<and> fetch_results w = [])"
  proof (rule do_check.raw_induct
      [where P = "\<lambda>b now n w r. \<not> (n = 0 \<and> fetch_results w = [])", rotated 1, OF r])
    fix f b now n w r
    assume IH: "\<And>b now n w r. f b now n w = Some r \<Longrightarrow> \<not> (n = 0 \<and> fetch_results w = [])"
      and step: "(case addCallback process_events (fetch_and_delete b now n w) of
        (Inl e, w1) \<Rightarrow> Some (log_err (Some e) [] w1)
        | (Inr num_events, w1) \<Rightarrow>
            if num_events = n
            then Option.bind (f b now n w1) (\<lambda>r. Some (addErrback (\<lambda>e. log_err (Some e) []) r))
            else Some (Inr (), w1)) = Some r"
    show "\<not> (n = 0 \<and> fetch_results w = [])"
    proof
      assume z: "n = 0 \<and> fetch_results w = []"
      let ?w1 = "w\<lparr>trace := trace w @ [Fetch_and_delete b now 0], fetch_results := []\<rparr>"
      from step z have "Option.bind (f b now 0 ?w1)
          (\<lambda>r. Some (addErrback (\<lambda>e. log_err (Some e) []) r)) = Some r"
        by (simp add: fetch_and_delete_eq addCallback_def process_events_def)
      then obtain r' where "f b now 0 ?w1 = Some r'"
        by (auto split: Option.bind_splits)
      from IH [OF this] show False by simp
    qed
  qed
  with assms show False by simp
qed

text \<open>
  C2 (as amended).  With a batch size of at least one, the drain loop of a bucket ends on
  every list of fetch results, and never fails.  It polls the same bucket, with the same
  time and batch size, \<open>k\<close> times, where all polls but the last returned exactly
  \<^verbatim>\<open>batchsize\<close> events: it does not poll again after the first fetch that fails or
  returns another number of events.  When no bulk insert of the store fails and croniter
  raises on no cron entry of a fetched event, it does poll again after every fetch of
  exactly \<^verbatim>\<open>batchsize\<close> events.  The events it executes are those the \<open>k\<close> polls
  returned, each once and in that order.
\<close>

theorem drain_loop_ends:
  assumes "0 < n"
  shows "\<exists>w' k. check_events_in_bucket b now n w = Some (Inr (), w')
      \<and> 1 \<le> k \<and> k \<le> Suc (length (takeWhile (full n) (fetch_results w)))
      \<and> ((\<forall>r \<in> set (insert_results w). r = Inr ())
           \<and> (\<forall>e \<in> set (returned (fetch_results w)). truthy (cron e) \<longrightarrow>
                 (\<forall>t. \<exists>t'. croniter w (the (cron e)) t = Inr t')) \<longrightarrow>
            k = Suc (length (takeWhile (full n) (fetch_results w))))
      \<and> fetched (since w w') = replicate k (b, now, n)
      \<and> modified (since w w') = map executes (returned (take k (fetch_results w)))"
proof -
  from drain [OF assms, of b now w] obtain w' xs k where
    k: "do_check b now n w = Some (Inr (), w')" "trace w' = trace w @ xs" "1 \<le> k"
      "k \<le> Suc (length (takeWhile (full n) (fetch_results w)))"
      "(\<forall>r \<in> set (insert_results w). r = Inr ())
         \<and> (\<forall>e \<in> set (returned (fetch_results w)). truthy (cron e) \<longrightarrow>
               (\<forall>t. \<exists>t'. croniter w (the (cron e)) t = Inr t')) \<longrightarrow>
         k = Suc (length (takeWhile (full n) (fetch_results w)))"
      "fetched xs = replicate k (b, now, n)"
      "modified xs = map executes (returned (take k (fetch_results w)))"
    by blast
  from k(2) have "since w w' = xs" by (rule since_append)
  with k show ?thesis
    unfolding check_events_in_bucket_def by blast
qed

theorem drain_loop_ends_witness:
  "map_option (\<lambda>r. (fst r, fetched (since three_due (snd r)), modified (since three_due (snd r))))
     (check_events_in_bucket 0 7 2 three_due)
   = Some (Inr (), [(0, 7, 2), (0, 7, 2)],
           [(''t1'', ''g1'', ''p2'', ''v1''), (''t1'', ''g1'', ''p1'', ''v1''),
            (''t1'', ''g1'', ''p1'', ''v1'')])"
proof -
  have h: "(0::int) < 2" by simp
  have fr: "fetch_results three_due = [Inr [once, hourly], Inr [hourly_again]]"
    and ir: "insert_results three_due = []"
    by (simp_all add: three_due_def)
  have tw: "takeWhile (full 2) (fetch_results three_due) = [Inr [once, hourly]]"
    by (simp add: fr full_def)
  from drain_loop_ends [OF h, of 0 7 three_due] obtain w' k where
    k: "check_events_in_bucket 0 7 2 three_due = Some (Inr (), w')"
      "(\<forall>r \<in> set (insert_results three_due). r = Inr ())
         \<and> (\<forall>e \<in> set (returned (fetch_results three_due)). truthy (cron e) \<longrightarrow>
               (\<forall>t. \<exists>t'. croniter three_due (the (cron e)) t = Inr t')) \<longrightarrow>
         k = Suc (length (takeWhile (full 2) (fetch_results three_due)))"
      "fetched (since three_due w') = replicate k (0, 7, 2)"
      "modified (since three_due w') = map executes (returned (take k (fetch_results three_due)))"
    by blast
  have cr: "\<forall>e \<in> set (returned (fetch_results three_due)). truthy (cron e) \<longrightarrow>
      (\<forall>t. \<exists>t'. croniter three_due (the (cron e)) t = Inr t')"
    by (simp add: fr three_due_def truthy_def)
  from k(2) cr have "k = 2" by (simp add: ir tw)
  with k(1,3,4) show ?thesis
    by (simp add: fr executes_def numeral_2_eq_2)
qed

text \<open>
  The claim as it is written fails.  With a batch size of zero every fetch returns as
  many events as the batch size, none, and the loop polls for ever, also when nothing is
  due.  And when the bulk insert of a batch fails, or croniter raises on a cron entry of
  the batch, the loop logs the failure and stops, although the fetch returned exactly
  \<^verbatim>\<open>batchsize\<close> events and more are due.
\<close>

theorem drain_loop_counterexample:
  "check_events_in_bucket 0 7 0 quiet = None
   \<and> full 1 (hd (fetch_results insert_down))
   \<and> map_option (\<lambda>r. (fst r, fetched (since insert_down (snd r)), fetch_results (snd r)))
       (check_events_in_bucket 0 7 1 insert_down)
     = Some (Inr (), [(0, 7, 1)], [Inr [once]])
   \<and> full 1 (hd (fetch_results unreadable_due))
   \<and> map_option (\<lambda>r. (fst r, fetched (since unreadable_due (snd r)), fetch_results (snd r)))
       (check_events_in_bucket 0 7 1 unreadable_due)
     = Some (Inr (), [(0, 7, 1)], [Inr [once]])"
proof -
  have a: "check_events_in_bucket 0 7 0 quiet = None"
    unfolding check_events_in_bucket_def by (rule do_check_zero_diverges) simp
  have fr: "fetch_results insert_down = [Inr [hourly], Inr [once]]"
    and ir: "insert_results insert_down = [Inl (OtherError ''down'')]"
    and tr: "trace insert_down = []"
    by (simp_all add: insert_down_def)
  let ?w1 = "snd (fetch_and_delete 0 7 1 insert_down)"
  have f1: "fst (fetch_and_delete 0 7 1 insert_down) = Inr [hourly]"
    by (simp add: fetch_and_delete_eq fr)
  have dh: "fst (settled [hourly] ?w1) = {}"
    by (simp add: settled_eq outcome_at_def vanished_def fetch_and_delete_eq insert_down_def)
  have "rescheduled [hourly] ?w1 = Inr [hourly\<lparr>trigger := 160\<rparr>]"
    unfolding rescheduled_def dh
    by (simp add: truthy_def next_cron_occurrence_eq settled_eq fetch_and_delete_eq
        insert_down_def)
  then have p1: "fst (process_events [hourly] ?w1) = Inl (OtherError ''down'')"
    by (simp add: fst_process_events fetch_and_delete_eq ir)
  obtain xp where xp: "trace (snd (process_events [hourly] ?w1)) = trace ?w1 @ xp"
    "fetched xp = []"
    using process_events_extends [of "[hourly]" ?w1] by blast
  let ?w' = "emit (Log_err (Some (OtherError ''down'')) []) (snd (process_events [hourly] ?w1))"
  have d: "do_check 0 7 1 insert_down = Some (Inr (), ?w')"
    by (subst do_check_step) (simp add: f1 p1)
  have t1: "trace ?w1 = trace insert_down @ [Fetch_and_delete 0 7 1]"
    and r1: "fetch_results ?w1 = [Inr [once]]"
    by (simp_all add: fetch_and_delete_eq fr)
  have "trace ?w' = trace insert_down
      @ Fetch_and_delete 0 7 1 # xp @ [Log_err (Some (OtherError ''down'')) []]"
    by (simp add: emit_def xp t1)
  then have "since insert_down ?w' = Fetch_and_delete 0 7 1 # xp @ [Log_err (Some (OtherError ''down'')) []]"
    by (rule since_append)
  then have s: "fetched (since insert_down ?w') = [(0, 7, 1)]"
    by (simp add: fetched_append xp)
  have r: "fetch_results ?w' = [Inr [once]]"
    by (simp add: emit_def fetch_results_process_events r1)
  have fu: "fetch_results unreadable_due = [Inr [unreadable], Inr [once]]"
    and mu: "modify_results unreadable_due = []"
    by (simp_all add: unreadable_due_def)
  let ?u1 = "snd (fetch_and_delete 0 7 1 unreadable_due)"
  have g1: "fst (fetch_and_delete 0 7 1 unreadable_due) = Inr [unreadable]"
    by (simp add: fetch_and_delete_eq fu)
  have mu1: "modify_results ?u1 = []"
    by (simp add: fetch_and_delete_eq mu)
  have cu1: "croniter ?u1 = croniter quiet"
    by (simp add: fetch_and_delete_eq unreadable_due_def)
  have du: "fst (settled [unreadable] ?u1) = {}"
    by (simp add: settled_eq outcome_at_def vanished_def mu1)
  have "rescheduled [unreadable] ?u1 = Inl (OtherError ''bad cron'')"
    unfolding rescheduled_def du
    by (simp add: truthy_def next_cron_occurrence_eq croniter_settled cu1)
  then have q1: "fst (process_events [unreadable] ?u1) = Inl (OtherError ''bad cron'')"
    by (simp add: fst_process_events)
  obtain xq where xq: "trace (snd (process_events [unreadable] ?u1)) = trace ?u1 @ xq"
    "fetched xq = []"
    using process_events_extends [of "[unreadable]" ?u1] by blast
  let ?u' = "emit (Log_err (Some (OtherError ''bad cron'')) [])
               (snd (process_events [unreadable] ?u1))"
  have du': "do_check 0 7 1 unreadable_due = Some (Inr (), ?u')"
    by (subst do_check_step) (simp add: g1 q1)
  have u1: "trace ?u1 = trace unreadable_due @ [Fetch_and_delete 0 7 1]"
    and v1: "fetch_results ?u1 = [Inr [once]]"
    by (simp_all add: fetch_and_delete_eq fu)
  have "trace ?u' = trace unreadable_due
      @ Fetch_and_delete 0 7 1 # xq @ [Log_err (Some (OtherError ''bad cron'')) []]"
    by (simp add: emit_def xq u1)
  then have "since unreadable_due ?u'
      = Fetch_and_delete 0 7 1 # xq @ [Log_err (Some (OtherError ''bad cron'')) []]"
    by (rule since_append)
  then have su: "fetched (since unreadable_due ?u') = [(0, 7, 1)]"
    by (simp add: fetched_append xq)
  have ru: "fetch_results ?u' = [Inr [once]]"
    by (simp add: emit_def fetch_results_process_events v1)
  from a d s r du' su ru show ?thesis
    by (simp add: check_events_in_bucket_def fr fu full_def)
qed

subsection \<open>The service\<close>

lemma check_buckets_succeed:
  "check_buckets bs now n w = Some (ds, w') \<Longrightarrow> gatherResults ds = Inr (replicate (length bs) ())"
proof (induction bs arbitrary: w ds)
  case Nil
  then show ?case by simp
next
  case (Cons b bs)
  from Cons.prems obtain d w1 ds' where
    d: "do_check b now n w = Some (d, w1)" and ds': "check_buckets bs now n w1 = Some (ds', w')"
    and ds: "ds = d # ds'"
    by (auto simp: check_events_in_bucket_def split: option.splits)
  from do_check_succeeds [OF d] have "d = Inr ()" by simp
  with Cons.IH [OF ds'] ds show ?case by simp
qed

text \<open>
  C3 (as amended).  On a tick of the started service, \<^verbatim>\<open>store.fetch_and_delete\<close> is
  called only when the partitioner is allocated and neither allocating, releasing nor
  failed.  When it is allocating the tick only logs; when it is to release, the tick only
  calls \<^verbatim>\<open>release_set\<close>; when it has failed, the tick joins anew over all the buckets;
  in any other state that is not allocated the tick logs an error, calls \<^verbatim>\<open>finish\<close> and
  joins anew.  The tick does not fail, except that in the release case its outcome is
  that of \<^verbatim>\<open>release_set\<close>.
\<close>

theorem tick_polls_only_when_allocated:
  assumes "kz_partition svc = Some p"
  shows "(allocating p \<longrightarrow>
            check_events n svc w =
              Some (Inr (), svc, w\<lparr>trace := trace w @ [Log_msg ''Partition allocating'']\<rparr>))
       \<and> (\<not> allocating p \<and> release p \<longrightarrow>
            check_events n svc w =
              Some (release_set_result p, svc,
                    w\<lparr>trace := trace w @ [Log_msg ''Partition changed. Repartitioning'', Release_set]\<rparr>))
       \<and> (\<not> allocating p \<and> \<not> release p \<and> failed p \<longrightarrow>
            check_events n svc w =
              Some (Inr (),
                    svc\<lparr>kz_partition :=
                          Some (kz_client svc (zk_partition_path svc) (set (buckets svc)) 15)\<rparr>,
                    w\<lparr>trace := trace w @ [Log_msg ''Partition failed. Starting new'',
                         Set_partitioner (zk_partition_path svc) (set (buckets svc)) 15]\<rparr>))
       \<and> (\<not> allocating p \<and> \<not> release p \<and> \<not> failed p \<and> \<not> allocated p \<longrightarrow>
            check_events n svc w =
              Some (Inr (),
                    svc\<lparr>kz_partition :=
                          Some (kz_client svc (zk_partition_path svc) (set (buckets svc)) 15)\<rparr>,
                    w\<lparr>trace := trace w @
                        [Log_err None (''Unknown state '' @ state p @ ''. This cannot happen. Starting new''),
                         Finish,
                         Set_partitioner (zk_partition_path svc) (set (buckets svc)) 15]\<rparr>))
       \<and> (\<forall>d svc' w'. check_events n svc w = Some (d, svc', w') \<and> fetched (since w w') \<noteq> [] \<longrightarrow>
            allocated p \<and> \<not> allocating p \<and> \<not> release p \<and> \<not> failed p)
       \<and> (\<forall>d svc' w'. check_events n svc w = Some (d, svc', w') \<and> (allocating p \<or> \<not> release p) \<longrightarrow>
            d = Inr ())"
proof -
  have a: "allocating p \<Longrightarrow> check_events n svc w =
      Some (Inr (), svc, w\<lparr>trace := trace w @ [Log_msg ''Partition allocating'']\<rparr>)"
    using assms by (simp add: check_events_def log_msg_def emit_def)
  have b: "\<not> allocating p \<Longrightarrow> release p \<Longrightarrow> check_events n svc w =
      Some (release_set_result p, svc,
            w\<lparr>trace := trace w @ [Log_msg ''Partition changed. Repartitioning'', Release_set]\<rparr>)"
    using assms by (simp add: check_events_def log_msg_def emit_def release_set_def)
  have c: "\<not> allocating p \<Longrightarrow> \<not> release p \<Longrightarrow> failed p \<Longrightarrow> check_events n svc w =
      Some (Inr (),
            svc\<lparr>kz_partition :=
                  Some (kz_client svc (zk_partition_path svc) (set (buckets svc)) 15)\<rparr>,
            w\<lparr>trace := trace w @ [Log_msg ''Partition failed. Starting new'',
                 Set_partitioner (zk_partition_path svc) (set (buckets svc)) 15]\<rparr>)"
    using assms by (simp add: check_events_def log_msg_def emit_def SetPartitioner_def)
  have d: "\<not> allocating p \<Longrightarrow> \<not> release p \<Longrightarrow> \<not> failed p \<Longrightarrow> \<not> allocated p \<Longrightarrow>
      check_events n svc w =
      Some (Inr (),
            svc\<lparr>kz_partition :=
                  Some (kz_client svc (zk_partition_path svc) (set (buckets svc)) 15)\<rparr>,
            w\<lparr>trace := trace w @
                [Log_err None (''Unknown state '' @ state p @ ''. This cannot happen. Starting new''),
                 Finish,
                 Set_partitioner (zk_partition_path svc) (set (buckets svc)) 15]\<rparr>)"
    using assms
    by (simp add: check_events_def log_err_def emit_def SetPartitioner_def finish_def)
  have e: "allocated p \<and> \<not> allocating p \<and> \<not> release p \<and> \<not> failed p"
    if "check_events n svc w = Some (r, svc', w')" and "fetched (since w w') \<noteq> []"
    for r svc' w'
  proof (rule ccontr)
    assume "\<not> (allocated p \<and> \<not> allocating p \<and> \<not> release p \<and> \<not> failed p)"
    then consider "allocating p" | "\<not> allocating p" "release p"
      | "\<not> allocating p" "\<not> release p" "failed p"
      | "\<not> allocating p" "\<not> release p" "\<not> failed p" "\<not> allocated p"
      by blast
    then have "fetched (since w w') = []"
    proof cases
      case 1
      from a [OF 1] that(1) show ?thesis by (auto simp: since_def)
    next
      case 2
      from b [OF 2] that(1) show ?thesis by (auto simp: since_def)
    next
      case 3
      from c [OF 3] that(1) show ?thesis by (auto simp: since_def)
    next
      case 4
      from d [OF 4] that(1) show ?thesis by (auto simp: since_def)
    qed
    with that(2) show False by simp
  qed
  have f: "r = Inr ()"
    if ch: "check_events n svc w = Some (r, svc', w')" and nr: "allocating p \<or> \<not> release p"
    for r svc' w'
  proof -
    consider "allocating p" | "\<not> allocating p" "\<not> release p" "failed p"
      | "\<not> allocating p" "\<not> release p" "\<not> failed p" "\<not> allocated p"
      | "\<not> allocating p" "\<not> release p" "\<not> failed p" "allocated p"
      using nr by blast
    then show ?thesis
    proof cases
      case 1
      from a [OF 1] ch show ?thesis by simp
    next
      case 2
      from c [OF 2] ch show ?thesis by simp
    next
      case 3
      from d [OF 3] ch show ?thesis by simp
    next
      case 4
      with ch assms obtain ds w3 where
        cb: "check_buckets (owned p) (fst (utcnow w)) n
               (log_msg ''Got buckets {buckets}'' (snd (utcnow w))) = Some (ds, w3)"
        and r: "r = (case gatherResults ds of Inl f \<Rightarrow> Inl f | Inr _ \<Rightarrow> Inr ())"
        by (auto simp: check_events_def split: prod.splits option.splits)
      from check_buckets_succeed [OF cb] r show ?thesis by simp
    qed
  qed
  from a b c d e f show ?thesis by blast
qed

theorem tick_polls_only_when_allocated_witness:
  "check_events 2 (service\<lparr>kz_partition := Some (joined\<lparr>allocated := False, state := ''LOST''\<rparr>)\<rparr>) quiet
   = Some (Inr (), service\<lparr>kz_partition := Some joining\<rparr>,
           quiet\<lparr>trace := [Log_err None ''Unknown state LOST. This cannot happen. Starting new'',
                            Finish, Set_partitioner ''/part'' {0, 1, 2} 15]\<rparr>)"
proof -
  let ?p = "joined\<lparr>allocated := False, state := ''LOST''\<rparr>"
  let ?svc = "service\<lparr>kz_partition := Some ?p\<rparr>"
  have h: "kz_partition ?svc = Some ?p" by simp
  have p: "\<not> allocating ?p \<and> \<not> release ?p \<and> \<not> failed ?p \<and> \<not> allocated ?p"
    by (simp add: joined_def)
  have e1: "?svc\<lparr>kz_partition :=
                Some (kz_client ?svc (zk_partition_path ?svc) (set (buckets ?svc)) 15)\<rparr>
      = service\<lparr>kz_partition := Some joining\<rparr>"
    by (simp add: service_def)
  have e2: "quiet\<lparr>trace := trace quiet @
        [Log_err None (''Unknown state '' @ state ?p @ ''. This cannot happen. Starting new''),
         Finish, Set_partitioner (zk_partition_path ?svc) (set (buckets ?svc)) 15]\<rparr>
      = quiet\<lparr>trace := [Log_err None ''Unknown state LOST. This cannot happen. Starting new'',
                           Finish, Set_partitioner ''/part'' {0, 1, 2} 15]\<rparr>"
    by (simp add: service_def)
  from tick_polls_only_when_allocated [OF h, of 2 quiet] p
  have "check_events 2 ?svc quiet =
      Some (Inr (),
            ?svc\<lparr>kz_partition :=
                  Some (kz_client ?svc (zk_partition_path ?svc) (set (buckets ?svc)) 15)\<rparr>,
            quiet\<lparr>trace := trace quiet @
                [Log_err None (''Unknown state '' @ state ?p @ ''. This cannot happen. Starting new''),
                 Finish,
                 Set_partitioner (zk_partition_path ?svc) (set (buckets ?svc)) 15]\<rparr>)"
    by blast
  then show ?thesis
    by (simp only: e1 e2)
qed

text \<open>
  The claim as it is written fails when the partitioner is to release its buckets and
  \<^verbatim>\<open>release_set\<close> fails: the tick returns that failure to the timer.
\<close>

theorem tick_counterexample:
  "release releasing
   \<and> check_events 2 (service\<lparr>kz_partition := Some releasing\<rparr>) quiet
     = Some (Inl (OtherError ''session lost''), service\<lparr>kz_partition := Some releasing\<rparr>,
             quiet\<lparr>trace := [Log_msg ''Partition changed. Repartitioning'', Release_set]\<rparr>)"
  by (simp add: check_events_def releasing_def joined_def release_set_def log_msg_def emit_def)

text \<open>
  C9.  Stopping the started service stops the timer, then calls \<^verbatim>\<open>finish\<close> on the
  partitioner, and returns what \<^verbatim>\<open>finish\<close> returns: the caller waits on the release of
  the buckets.
\<close>

theorem stop_service_finishes_the_partitioner:
  assumes "kz_partition svc = Some p"
  shows "stopService svc w = (finish_result p, w\<lparr>trace := trace w @ [Timer_stop, Finish]\<rparr>)"
  using assms by (simp add: stopService_def finish_def emit_def)

theorem stop_service_finishes_the_partitioner_witness:
  "map_option (\<lambda>(svc, w). stopService svc w)
     (startService (service\<lparr>kz_partition := None\<rparr>) quiet)
   = Some (Inr (), quiet\<lparr>trace := [Set_partitioner ''/part'' {0, 1, 2} 15, Timer_start,
                                        Log_msg ''Partition allocating'', Timer_stop, Finish]\<rparr>)"
proof -
  let ?svc = "service\<lparr>kz_partition := Some joining\<rparr>"
  let ?w = "quiet\<lparr>trace := [Set_partitioner ''/part'' {0, 1, 2} 15, Timer_start,
                            Log_msg ''Partition allocating'']\<rparr>"
  have s: "startService (service\<lparr>kz_partition := None\<rparr>) quiet = Some (?svc, ?w)"
    by (simp add: startService_def SetPartitioner_def service_def check_events_def joining_def
        joined_def log_msg_def emit_def)
  have h: "kz_partition ?svc = Some joining" by simp
  have f: "finish_result joining = Inr ()"
    by (simp add: joining_def joined_def)
  have "?w\<lparr>trace := trace ?w @ [Timer_stop, Finish]\<rparr>
      = quiet\<lparr>trace := [Set_partitioner ''/part'' {0, 1, 2} 15, Timer_start,
                           Log_msg ''Partition allocating'', Timer_stop, Finish]\<rparr>"
    by simp
  with stop_service_finishes_the_partitioner [OF h, of ?w] f
  have "stopService ?svc ?w
      = (Inr (), quiet\<lparr>trace := [Set_partitioner ''/part'' {0, 1, 2} 15, Timer_start,
                                   Log_msg ''Partition allocating'', Timer_stop, Finish]\<rparr>)"
    by (simp only:)
  with s show ?thesis by simp
qed


end
